theory Spec2Isabelle
  imports Main "HOL-Library.Char_ord" "HOL-Library.List_Lexorder"
begin

section \<open>Strings and characters of the source language\<close>

text \<open>
  A JavaScript string is a sequence of UTF-16 code units. The model uses \<^typ>\<open>string\<close>:
  one \<^typ>\<open>char\<close> stands for one code unit below 256. All constants the code compares
  with (digits, status words, key names) are ASCII.
\<close>

definition is_digit :: "char \<Rightarrow> bool" where
  \<comment> \<open>the regular expression class \<open>\d\<close>: exactly \<open>0\<close> to \<open>9\<close>\<close>
  "is_digit c = (48 \<le> (of_char c :: nat) \<and> (of_char c :: nat) \<le> 57)"

definition is_space :: "char \<Rightarrow> bool" where
  \<comment> \<open>the class \<open>\s\<close>, which is also the white space that \<open>Number\<close> trims:
      TAB, LF, VT, FF, CR, SP and NBSP among the code units below 256\<close>
  "is_space c = ((of_char c :: nat) \<in> {9, 10, 11, 12, 13, 32, 160})"

definition in_range :: "char \<Rightarrow> char \<Rightarrow> char \<Rightarrow> bool" where
  \<comment> \<open>a bracket class \<open>[lo-hi]\<close>\<close>
  "in_range lo hi c = ((of_char lo :: nat) \<le> of_char c \<and> (of_char c :: nat) \<le> of_char hi)"

definition Number_char :: "char \<Rightarrow> nat option" where
  \<comment> \<open>\<open>Number(s[i])\<close> on a string of one code unit: a digit is its value, white space
      trims to the empty string and is 0, anything else is NaN (\<open>None\<close>)\<close>
  "Number_char c =
     (if is_digit c then Some (of_char c - 48)
      else if is_space c then Some 0
      else None)"

fun starts_with :: "(char \<Rightarrow> bool) list \<Rightarrow> string \<Rightarrow> bool" where
  \<comment> \<open>an anchored pattern \<open>^c1c2...\<close> given as the list of its character classes\<close>
  "starts_with [] s = True"
| "starts_with (p # ps) [] = False"
| "starts_with (p # ps) (c # cs) = (p c \<and> starts_with ps cs)"

section \<open>Validation and classification\<close>

record card_meta =
  label :: string
  lengths :: "nat list"

definition detectCardType :: "string \<Rightarrow> card_meta" where
  "detectCardType cardNumber =
     (if starts_with [(=) CHR ''4''] cardNumber
      then \<lparr>label = ''Visa'', lengths = [13, 16, 19]\<rparr>
      else if starts_with [(=) CHR ''5'', in_range CHR ''1'' CHR ''5''] cardNumber
            \<or> starts_with [(=) CHR ''2'', (=) CHR ''2'', in_range CHR ''2'' CHR ''9''] cardNumber
            \<or> starts_with [(=) CHR ''2'', in_range CHR ''3'' CHR ''6'', is_digit] cardNumber
            \<or> starts_with [(=) CHR ''2'', (=) CHR ''7'', in_range CHR ''0'' CHR ''1''] cardNumber
            \<or> starts_with [(=) CHR ''2'', (=) CHR ''7'', (=) CHR ''2'', (=) CHR ''0''] cardNumber
      then \<lparr>label = ''Mastercard'', lengths = [16]\<rparr>
      else if starts_with [(=) CHR ''3'', (\<lambda>c. c = CHR ''4'' \<or> c = CHR ''7'')] cardNumber
      then \<lparr>label = ''American Express'', lengths = [15]\<rparr>
      else if starts_with [(=) CHR ''6'', (=) CHR ''0'', (=) CHR ''1'', (=) CHR ''1''] cardNumber
            \<or> starts_with [(=) CHR ''6'', (=) CHR ''5''] cardNumber
            \<or> starts_with [(=) CHR ''6'', (=) CHR ''4'', in_range CHR ''4'' CHR ''9''] cardNumber
            \<or> starts_with [(=) CHR ''6'', (=) CHR ''2'', (=) CHR ''2''] cardNumber
      then \<lparr>label = ''Discover'', lengths = [16, 19]\<rparr>
      else if starts_with [(=) CHR ''5'', (=) CHR ''0'', (=) CHR ''6'', (=) CHR ''0''] cardNumber
            \<or> starts_with [(=) CHR ''5'', (=) CHR ''0'', (=) CHR ''6'', (=) CHR ''1''] cardNumber
            \<or> starts_with [(=) CHR ''5'', (=) CHR ''0'', (=) CHR ''7'', (=) CHR ''8''] cardNumber
            \<or> starts_with [(=) CHR ''5'', (=) CHR ''0'', (=) CHR ''7'', (=) CHR ''9''] cardNumber
            \<or> starts_with [(=) CHR ''6'', (=) CHR ''5'', (=) CHR ''0'', (=) CHR ''0''] cardNumber
      then \<lparr>label = ''Verve'', lengths = [16, 18, 19]\<rparr>
      else \<lparr>label = ''Unknown'', lengths = [12, 13, 14, 15, 16, 17, 18, 19]\<rparr>)"

text \<open>
  The loop of \<open>isValidLuhn\<close> runs \<open>i\<close> from the last index down to 0: the model walks
  the reversed string, carrying the variables \<open>sum\<close> (here \<open>acc\<close>, as \<open>sum\<close> is a
  constant of HOL) and \<open>shouldDouble\<close>. The early \<open>return false\<close> on NaN is the \<open>None\<close>
  branch.
\<close>

fun luhn_loop :: "string \<Rightarrow> nat \<Rightarrow> bool \<Rightarrow> bool" where
  "luhn_loop [] acc shouldDouble = (acc mod 10 = 0)"
| "luhn_loop (c # cs) acc shouldDouble =
     (case Number_char c of
        None \<Rightarrow> False
      | Some digit \<Rightarrow>
          (let v = (if shouldDouble
                    then (if digit * 2 > 9 then digit * 2 - 9 else digit * 2)
                    else digit)
           in luhn_loop cs (acc + v) (\<not> shouldDouble)))"

definition isValidLuhn :: "string \<Rightarrow> bool" where
  "isValidLuhn cardNumber = luhn_loop (rev cardNumber) 0 False"

definition cardDigits :: "string \<Rightarrow> string" where
  \<comment> \<open>\<open>cardNumber.replace(/\s+/g, "")\<close>\<close>
  "cardDigits cardNumber = filter (\<lambda>c. \<not> is_space c) cardNumber"

definition matches_d12_19 :: "string \<Rightarrow> bool" where
  \<comment> \<open>\<open>/^\d{12,19}$/.test(s)\<close>\<close>
  "matches_d12_19 s = (list_all is_digit s \<and> 12 \<le> length s \<and> length s \<le> 19)"

definition cardNumberValid :: "string \<Rightarrow> bool" where
  "cardNumberValid cardNumber =
     (let digits = cardDigits cardNumber; cardMeta = detectCardType digits
      in matches_d12_19 digits
         \<and> length digits \<in> set (lengths cardMeta)
         \<and> isValidLuhn digits)"

text \<open>
  The checksum as the specification words it: over the digit values read from the
  rightmost, every second one is doubled, minus 9 when the double exceeds 9.
\<close>

fun luhn_sum_spec :: "nat list \<Rightarrow> nat" where
  "luhn_sum_spec [] = 0"
| "luhn_sum_spec [d] = d"
| "luhn_sum_spec (d # e # ds) =
     d + (if 2 * e > 9 then 2 * e - 9 else 2 * e) + luhn_sum_spec ds"

definition digit_values :: "string \<Rightarrow> nat list" where
  \<comment> \<open>the digit values of a digit string, rightmost first\<close>
  "digit_values s = map (\<lambda>c. of_char c - 48) (rev s)"

text \<open>
  The brands as the specification lists them. A prefix rule is given by the characters
  it allows at each position, every range written out: \<open>5[1-5]\<close> is \<open>5\<close> then one of
  \<open>12345\<close>. The rules of a brand are alternatives, the brands are tried in the order of
  the table, and the first brand with a matching rule wins.
\<close>

datatype brand = Visa | Mastercard | Amex | Discover | Verve | UnknownBrand

fun matches_prefix_spec :: "string list \<Rightarrow> string \<Rightarrow> bool" where
  "matches_prefix_spec [] d = True"
| "matches_prefix_spec (allowed # rule) [] = False"
| "matches_prefix_spec (allowed # rule) (c # d) = (c \<in> set allowed \<and> matches_prefix_spec rule d)"

definition brand_rules_spec :: "(brand \<times> string list list) list" where
  "brand_rules_spec =
     [(Visa, [[''4'']]),
      (Mastercard, [[''5'', ''12345''],
                    [''2'', ''2'', ''23456789''],
                    [''2'', ''3456'', ''0123456789''],
                    [''2'', ''7'', ''01''],
                    [''2'', ''7'', ''2'', ''0'']]),
      (Amex, [[''3'', ''47'']]),
      (Discover, [[''6'', ''0'', ''1'', ''1''],
                  [''6'', ''5''],
                  [''6'', ''4'', ''456789''],
                  [''6'', ''2'', ''2'']]),
      (Verve, [[''5'', ''0'', ''6'', ''0''],
               [''5'', ''0'', ''6'', ''1''],
               [''5'', ''0'', ''7'', ''8''],
               [''5'', ''0'', ''7'', ''9''],
               [''6'', ''5'', ''0'', ''0'']])]"

fun first_match_spec :: "(brand \<times> string list list) list \<Rightarrow> string \<Rightarrow> brand" where
  "first_match_spec [] d = UnknownBrand"
| "first_match_spec ((b, rules) # rest) d =
     (if list_ex (\<lambda>rule. matches_prefix_spec rule d) rules then b else first_match_spec rest d)"

definition detectBrand_spec :: "string \<Rightarrow> brand" where
  "detectBrand_spec d = first_match_spec brand_rules_spec d"

fun accepted_lengths_spec :: "brand \<Rightarrow> nat set" where
  \<comment> \<open>the table of accepted lengths per brand, as the specification lists it\<close>
  "accepted_lengths_spec Visa = {13, 16, 19}"
| "accepted_lengths_spec Mastercard = {16}"
| "accepted_lengths_spec Amex = {15}"
| "accepted_lengths_spec Discover = {16, 19}"
| "accepted_lengths_spec Verve = {16, 18, 19}"
| "accepted_lengths_spec UnknownBrand = {n. 12 \<le> n \<and> n \<le> 19}"

fun brand_label :: "brand \<Rightarrow> string" where
  \<comment> \<open>the label under which the code shows each brand\<close>
  "brand_label Visa = ''Visa''"
| "brand_label Mastercard = ''Mastercard''"
| "brand_label Amex = ''American Express''"
| "brand_label Discover = ''Discover''"
| "brand_label Verve = ''Verve''"
| "brand_label UnknownBrand = ''Unknown''"

definition isValidExpiry :: "nat \<times> nat \<Rightarrow> string \<Rightarrow> bool" where
  \<comment> \<open>\<open>now\<close> is what \<open>new Date()\<close> gives: the full year and the month index 0 to 11;
      two first-of-month dates compare as their month counts do\<close>
  "isValidExpiry now v =
     (case v of
        [m1, m2, sl, y1, y2] \<Rightarrow>
          if is_digit m1 \<and> is_digit m2 \<and> sl = CHR ''/'' \<and> is_digit y1 \<and> is_digit y2
          then (let month = 10 * (of_char m1 - 48) + (of_char m2 - 48);
                    year = 10 * (of_char y1 - 48) + (of_char y2 - 48 :: nat)
                in if month = 0 \<or> month < 1 \<or> month > 12 then False
                   else fst now * 12 + snd now \<le> (2000 + year) * 12 + (month - 1))
          else False
      | _ \<Rightarrow> False)"

section \<open>Gateway responses\<close>

text \<open>
  A response body is parsed JSON. A value read from it is a \<open>json option\<close>, where
  \<open>None\<close> is JavaScript's \<open>undefined\<close> (a missing property). A number is carried
  as the text that \<open>Number.prototype.toString\<close> gives for it (\<open>500000\<close>, \<open>0.5\<close>,
  \<open>1e+21\<close>), which is one text for each number; zero is \<open>0\<close>. The keys of an object
  are distinct.
\<close>

datatype js_error = StackOverflow | InvalidDate | TypeError

datatype json =
    JNull
  | JBool bool
  | JNum string
  | JStr string
  | JArr "json list"
  | JObj "(string \<times> json) list"

definition get_prop :: "json option \<Rightarrow> string \<Rightarrow> json option" where
  \<comment> \<open>\<open>x?.k\<close>; none of the keys the code reads is a property of a string, number,
      boolean or array, so only an object yields a value\<close>
  "get_prop x k = (case x of Some (JObj fs) \<Rightarrow> map_of fs k | _ \<Rightarrow> None)"

fun truthy :: "json option \<Rightarrow> bool" where
  "truthy None = False"
| "truthy (Some JNull) = False"
| "truthy (Some (JBool b)) = b"
| "truthy (Some (JNum n)) = (n \<noteq> ''0'')"
| "truthy (Some (JStr s)) = (s \<noteq> [])"
| "truthy (Some (JArr xs)) = True"
| "truthy (Some (JObj fs)) = True"

definition js_or :: "json option \<Rightarrow> json option \<Rightarrow> json option" where
  \<comment> \<open>\<open>a || b\<close>\<close>
  "js_or a b = (if truthy a then a else b)"

definition or_else :: "json option \<Rightarrow> json \<Rightarrow> json" where
  \<comment> \<open>\<open>a || d\<close> where \<open>d\<close> is a literal or \<open>null\<close>: the result is never \<open>undefined\<close>\<close>
  "or_else a d = (case a of Some v \<Rightarrow> (if truthy a then v else d) | None \<Rightarrow> d)"

definition nullish :: "json option \<Rightarrow> json \<Rightarrow> json" where
  \<comment> \<open>\<open>a ?? d\<close>\<close>
  "nullish a d = (case a of None \<Rightarrow> d | Some JNull \<Rightarrow> d | Some v \<Rightarrow> v)"

definition nullish_opt :: "json option \<Rightarrow> json option \<Rightarrow> json option" where
  \<comment> \<open>\<open>a ?? b\<close> where \<open>b\<close> may be \<open>undefined\<close>\<close>
  "nullish_opt a b = (case a of None \<Rightarrow> b | Some JNull \<Rightarrow> b | Some v \<Rightarrow> Some v)"

fun join_comma :: "string list \<Rightarrow> string" where
  "join_comma [] = []"
| "join_comma [s] = s"
| "join_comma (s # t # ss) = s @ CHR '','' # join_comma (t # ss)"

fun String_js :: "json \<Rightarrow> js_error + string" where
  \<comment> \<open>\<open>String(v)\<close>. An array joins its elements, \<open>null\<close> elements as the empty string.
      An object of a parsed body has no function among its properties: with an own
      property \<open>toString\<close> the conversion finds nothing to call (the inherited \<open>valueOf\<close>
      gives the object back) and throws a \<open>TypeError\<close>; without one the inherited
      \<open>toString\<close> answers\<close>
  "String_js JNull = Inr ''null''"
| "String_js (JBool b) = Inr (if b then ''true'' else ''false'')"
| "String_js (JNum n) = Inr n"
| "String_js (JStr s) = Inr s"
| "String_js (JArr xs) =
     (let rs = map (\<lambda>x. if x = JNull then Inr [] else String_js x) xs
      in if list_ex isl rs then Inl TypeError else Inr (join_comma (map projr rs)))"
| "String_js (JObj fs) =
     (if map_of fs ''toString'' = None then Inr ''[object Object]'' else Inl TypeError)"

definition lower_char :: "char \<Rightarrow> char" where
  \<comment> \<open>A to Z, and the capital letters of Latin-1 (all but the multiplication sign)\<close>
  "lower_char c =
     (let n = (of_char c :: nat)
      in if (65 \<le> n \<and> n \<le> 90) \<or> (192 \<le> n \<and> n \<le> 222 \<and> n \<noteq> 215)
         then char_of (n + 32) else c)"

definition toLowerCase :: "string \<Rightarrow> string" where
  "toLowerCase s = map lower_char s"

definition trim :: "string \<Rightarrow> string" where
  "trim s = rev (dropWhile is_space (rev (dropWhile is_space s)))"

definition unwrap :: "json \<Rightarrow> json" where
  \<comment> \<open>\<open>data?.data ?? data\<close>\<close>
  "unwrap data = nullish (get_prop (Some data) ''data'') data"

record axios_error =
  response_data :: "json option"  \<comment> \<open>\<open>e.response?.data\<close>\<close>
  message :: string               \<comment> \<open>\<open>e.message\<close>\<close>

definition thrown :: "js_error \<Rightarrow> axios_error" where
  \<comment> \<open>an error thrown inside a \<open>try\<close> block, as the \<open>catch\<close> block reads it: it has no
      \<open>response\<close>, and its message is the engine's (here the wording of V8); the
      handlers throw a \<open>TypeError\<close> only\<close>
  "thrown e =
     \<lparr>response_data = None,
      message = (case e of
                   TypeError \<Rightarrow> ''Cannot convert object to primitive value''
                 | StackOverflow \<Rightarrow> ''Maximum call stack size exceeded''
                 | InvalidDate \<Rightarrow> ''Invalid time value'')\<rparr>"

definition error_message :: "axios_error \<Rightarrow> string \<Rightarrow> json" where
  \<comment> \<open>\<open>e.response?.data?.message || e.message || fallback\<close>\<close>
  "error_message e fallback =
     or_else (js_or (get_prop (response_data e) ''message'') (Some (JStr (message e))))
             (JStr fallback)"

section \<open>The widget state\<close>

datatype InitState = Idle | Loading | InitSuccess json | InitError json

datatype ActiveTab = Card | Transfer

datatype CardNextAction = NoAction | Otp | Redirect | Success

record bank_details =
  bankName :: json
  accountName :: json
  accountNumber :: json
  referenceCode :: json

text \<open>
  One field per \<open>useState\<close> cell and per timer \<open>useRef\<close> of the component; \<open>null\<close> is
  \<open>JNull\<close> or \<open>None\<close>. A pending success timer holds the payload it will hand to
  \<open>onSuccess\<close>, a pending redirect timer the address it will open. The last four fields
  record what the component did to the outside: the requests it posted, the calls of
  \<open>onError\<close> and \<open>onSuccess\<close>, and the address it navigated to.
\<close>

record widget =
  init :: InitState
  overlay :: bool
  active :: ActiveTab
  errorMsg :: json
  successMsg :: json
  transactionId :: json
  cardStep :: nat
  cardNumber :: string
  expiry :: string
  cvv :: string
  pin :: string
  cardOtp :: string
  cardNextAction :: CardNextAction
  cardSuccessData :: json
  cardRedirectUrl :: json
  cardRedirectCountdownSec :: int
  transferStep :: nat
  bankDetails :: "bank_details option"
  transferVerifyCooldownSec :: int
  transferVerified :: bool
  successCallbackTimerRef :: "json option"
  cardRedirectTimerRef :: "string option"
  cardRedirectCountdownTimerRef :: bool
  requests :: "string list"
  onErrorCalls :: nat
  onSuccessCalls :: "json list"
  navigatedTo :: "string option"

definition initial_widget :: "ActiveTab \<Rightarrow> widget" where
  "initial_widget tab =
     \<lparr>init = Idle, overlay = False, active = tab, errorMsg = JNull, successMsg = JNull,
      transactionId = JNull, cardStep = 1, cardNumber = [], expiry = [], cvv = [],
      pin = [], cardOtp = [], cardNextAction = NoAction, cardSuccessData = JNull,
      cardRedirectUrl = JNull, cardRedirectCountdownSec = 0, transferStep = 1,
      bankDetails = None, transferVerifyCooldownSec = 0, transferVerified = False,
      successCallbackTimerRef = None, cardRedirectTimerRef = None,
      cardRedirectCountdownTimerRef = False, requests = [], onErrorCalls = 0,
      onSuccessCalls = [], navigatedTo = None\<rparr>"

definition clearCardRedirectTimers :: "widget \<Rightarrow> widget" where
  "clearCardRedirectTimers st =
     st\<lparr>cardRedirectTimerRef := None, cardRedirectCountdownTimerRef := False,
        cardRedirectCountdownSec := 0\<rparr>"

definition resetCardAuthFlow :: "widget \<Rightarrow> widget" where
  "resetCardAuthFlow st =
     (clearCardRedirectTimers st)
       \<lparr>cardNextAction := NoAction, cardSuccessData := JNull, cardRedirectUrl := JNull,
        cardOtp := []\<rparr>"

definition showCardSuccessState :: "json \<Rightarrow> json option \<Rightarrow> widget \<Rightarrow> widget" where
  "showCardSuccessState payload msg st =
     (clearCardRedirectTimers st)
       \<lparr>cardNextAction := Success, cardSuccessData := payload, cardOtp := [],
        cardRedirectUrl := JNull,
        successMsg := or_else (js_or msg (get_prop (Some payload) ''message''))
                              (JStr ''Payment successful.'')\<rparr>"

definition queueSuccessCallback :: "json \<Rightarrow> widget \<Rightarrow> widget" where
  \<comment> \<open>a pending timer is cleared and replaced\<close>
  "queueSuccessCallback payload st = st\<lparr>successCallbackTimerRef := Some payload\<rparr>"

definition startRedirectCountdown :: "string \<Rightarrow> widget \<Rightarrow> widget" where
  "startRedirectCountdown url st =
     (clearCardRedirectTimers st)
       \<lparr>cardNextAction := Redirect, cardRedirectUrl := JStr url,
        cardRedirectCountdownSec := 5,
        successMsg := JStr ''Redirect required. You will be redirected in 5 seconds to continue payment.'',
        cardRedirectCountdownTimerRef := True, cardRedirectTimerRef := Some url\<rparr>"

definition is_success_status :: "string \<Rightarrow> bool" where
  \<comment> \<open>\<open>["successful", "success", "confirmed"].includes(rawStatus)\<close>\<close>
  "is_success_status rawStatus = (rawStatus \<in> set [''successful'', ''success'', ''confirmed''])"

definition rawStatus_of :: "json \<Rightarrow> js_error + string" where
  \<comment> \<open>\<open>String(plain?.status ?? "").toLowerCase()\<close>\<close>
  "rawStatus_of plain =
     map_sum id toLowerCase (String_js (nullish (get_prop (Some plain) ''status'') (JStr [])))"

definition nextAction_of :: "json \<Rightarrow> js_error + string" where
  \<comment> \<open>\<open>String(plain?.next_action ?? "").toLowerCase()\<close>\<close>
  "nextAction_of plain =
     map_sum id toLowerCase
       (String_js (nullish (get_prop (Some plain) ''next_action'') (JStr [])))"

definition redirectUrl_of :: "json \<Rightarrow> json" where
  \<comment> \<open>\<open>plain?.redirect_url || plain?.redirectUrl || null\<close>\<close>
  "redirectUrl_of plain =
     or_else (js_or (get_prop (Some plain) ''redirect_url'') (get_prop (Some plain) ''redirectUrl'')) JNull"

section \<open>The handlers\<close>

text \<open>
  Each handler is an \<open>async\<close> function with at most one \<open>await\<close>, on a request to the
  gateway. The model runs it in one step: the outcome of the request is an argument,
  \<open>Inl\<close> a rejected call and \<open>Inr\<close> the body \<open>data\<close> of the response, and it is looked
  at only on the paths that post the request. The code that reads the response runs
  inside the \<open>try\<close> block: it returns \<open>Inl\<close> when a \<open>String(...)\<close> conversion throws,
  which happens before any state is set, and the \<open>catch\<close> block then treats the error
  as it treats a rejected call. The \<open>finally\<close> block runs on every path that entered
  the \<open>try\<close>.
\<close>

definition submit_response :: "ActiveTab \<Rightarrow> json \<Rightarrow> widget \<Rightarrow> js_error + widget" where
  \<comment> \<open>the body of \<open>submit\<close> from the response on; \<open>rest\<close> is the code after the
      \<open>if (method === "card")\<close> block, reached when no branch of the block returns\<close>
  "submit_response method plain st =
     (let rest = queueSuccessCallback plain (st\<lparr>successMsg := JStr ''Payment successful.''\<rparr>)
      in if method = Card
         then (case rawStatus_of plain of
                 Inl e \<Rightarrow> Inl e
               | Inr rawStatus \<Rightarrow>
           (case nextAction_of plain of
              Inl e \<Rightarrow> Inl e
            | Inr nextAction \<Rightarrow>
              (let payMessage = or_else (get_prop (Some plain) ''message'')
                                        (JStr ''Card payment response received.'');
                   redirectUrl = redirectUrl_of plain
               in if nextAction = ''otp''
                  then Inr (st\<lparr>cardNextAction := Otp, cardOtp := [], successMsg := payMessage\<rparr>)
                  else if nextAction = ''redirect''
                  then (if \<not> truthy (Some redirectUrl)
                        then Inr (st\<lparr>errorMsg := JStr ''Redirect payment requires a redirect URL, but none was returned.''\<rparr>)
                        else (case String_js redirectUrl of
                                Inl e \<Rightarrow> Inl e
                              | Inr url \<Rightarrow> Inr (startRedirectCountdown url st)))
                  else if is_success_status rawStatus
                  then Inr (queueSuccessCallback plain
                              (showCardSuccessState plain
                                 (Some (or_else (get_prop (Some plain) ''message'')
                                                (JStr ''Payment successful.''))) st))
                  else if rawStatus = ''pending''
                  then Inr (st\<lparr>errorMsg := payMessage\<rparr>)
                  else Inr rest)))
         else Inr rest)"

definition submit :: "nat \<times> nat \<Rightarrow> ActiveTab \<Rightarrow> axios_error + json \<Rightarrow> widget \<Rightarrow> widget" where
  "submit now method resp st =
     (if method = Card \<and> \<not> cardNumberValid (cardNumber st)
      then st\<lparr>errorMsg := JStr ''Please enter a valid card number.''\<rparr>
      else if method = Card \<and> \<not> isValidExpiry now (expiry st)
      then st\<lparr>errorMsg := JStr ''Please enter a valid expiry date (MM/YY). Past dates are not allowed.''\<rparr>
      else if method = Card \<and> length (pin st) \<noteq> 4
      then st\<lparr>errorMsg := JStr ''Card PIN must be exactly 4 digits.''\<rparr>
      else
        (let st1 = st\<lparr>overlay := True, errorMsg := JNull, successMsg := JNull\<rparr>;
             st2 = (if method = Card then resetCardAuthFlow st1 else st1);
             st3 = st2\<lparr>requests := requests st2 @ [''/pay'']\<rparr>;
             caught = (\<lambda>e. st3\<lparr>errorMsg := error_message e ''Payment failed. Please try again.'',
                                onErrorCalls := Suc (onErrorCalls st3)\<rparr>);
             st4 = (case resp of
                      Inl e \<Rightarrow> caught e
                    | Inr data \<Rightarrow>
                        (case submit_response method (unwrap data) st3 of
                           Inl e \<Rightarrow> caught (thrown e)
                         | Inr st' \<Rightarrow> st'))
         in st4\<lparr>overlay := False\<rparr>))"

definition verifyCardOtp_response :: "json \<Rightarrow> widget \<Rightarrow> js_error + widget" where
  "verifyCardOtp_response data st =
     (let plain = unwrap data
      in case rawStatus_of plain of
           Inl e \<Rightarrow> Inl e
         | Inr rawStatus \<Rightarrow>
      (case nextAction_of plain of
         Inl e \<Rightarrow> Inl e
       | Inr nextAction \<Rightarrow>
         (let verifyMessage = or_else (js_or (get_prop (Some plain) ''message'') (get_prop (Some data) ''message''))
                                      (JStr ''Card verification completed.'');
              redirectUrl = redirectUrl_of plain
          in if nextAction = ''redirect''
             then (if \<not> truthy (Some redirectUrl)
                   then Inr (st\<lparr>errorMsg := JStr ''Redirect payment requires a redirect URL, but none was returned.''\<rparr>)
                   else (case String_js redirectUrl of
                           Inl e \<Rightarrow> Inl e
                         | Inr url \<Rightarrow> Inr (startRedirectCountdown url st)))
             else if nextAction = ''otp''
             then Inr (st\<lparr>cardNextAction := Otp, successMsg := verifyMessage\<rparr>)
             else if is_success_status rawStatus
             then Inr (queueSuccessCallback plain
                         (showCardSuccessState plain
                            (Some (or_else (get_prop (Some plain) ''message'') (JStr ''Payment successful.''))) st))
             else if rawStatus = ''pending''
             then Inr (st\<lparr>cardNextAction := Otp, errorMsg := verifyMessage\<rparr>)
             else Inr (st\<lparr>errorMsg := or_else (Some verifyMessage)
                                               (JStr ''Could not verify OTP. Please try again.'')\<rparr>))))"

definition verifyCardOtp :: "axios_error + json \<Rightarrow> widget \<Rightarrow> widget" where
  "verifyCardOtp resp st =
     (if \<not> truthy (Some (transactionId st))
      then st\<lparr>errorMsg := JStr ''Transaction could not be initialized. Please retry.''\<rparr>
      else if trim (cardOtp st) = []
      then st\<lparr>errorMsg := JStr ''Please enter the OTP sent to the customer.''\<rparr>
      else
        (let st1 = st\<lparr>overlay := True, errorMsg := JNull, successMsg := JNull\<rparr>;
             st2 = st1\<lparr>requests := requests st1 @ [''/verify-otp'']\<rparr>;
             caught = (\<lambda>e. st2\<lparr>errorMsg := error_message e ''Could not verify OTP. Please try again.'',
                                onErrorCalls := Suc (onErrorCalls st2)\<rparr>);
             st3 = (case resp of
                      Inl e \<Rightarrow> caught e
                    | Inr data \<Rightarrow>
                        (case verifyCardOtp_response data st2 of
                           Inl e \<Rightarrow> caught (thrown e)
                         | Inr st' \<Rightarrow> st'))
         in st3\<lparr>overlay := False\<rparr>))"

definition verifyTransfer_response :: "json \<Rightarrow> widget \<Rightarrow> js_error + widget" where
  "verifyTransfer_response data st =
     (let plain = unwrap data
      in case rawStatus_of plain of
           Inl e \<Rightarrow> Inl e
         | Inr rawStatus \<Rightarrow>
         (let verifyMessage = or_else (js_or (get_prop (Some plain) ''message'') (get_prop (Some data) ''message''))
                                      (JStr ''Verification completed.'')
          in if is_success_status rawStatus
             then Inr (st\<lparr>transferVerified := True, transferVerifyCooldownSec := 0,
                          successMsg := JStr ''Transfer confirmed successfully. Transaction is complete.'',
                          successCallbackTimerRef := Some plain\<rparr>)
             else if rawStatus = ''pending''
             then Inr (st\<lparr>errorMsg := verifyMessage, transferVerifyCooldownSec := 60\<rparr>)
             else Inr (st\<lparr>errorMsg := or_else (Some verifyMessage)
                                               (JStr ''Unable to confirm transfer status right now.'')\<rparr>)))"

definition verifyTransfer :: "axios_error + json \<Rightarrow> widget \<Rightarrow> widget" where
  "verifyTransfer resp st =
     (if transferVerified st then st
      else if transferVerifyCooldownSec st > 0 then st
      else if \<not> truthy (Some (transactionId st))
      then st\<lparr>errorMsg := JStr ''Transaction could not be initialized. Please retry.''\<rparr>
      else
        (let st1 = st\<lparr>overlay := True, errorMsg := JNull, successMsg := JNull\<rparr>;
             st2 = st1\<lparr>requests := requests st1 @ [''/verify'']\<rparr>;
             caught = (\<lambda>e. st2\<lparr>errorMsg := error_message e ''Could not verify transfer. Please try again.'',
                                onErrorCalls := Suc (onErrorCalls st2)\<rparr>);
             st3 = (case resp of
                      Inl e \<Rightarrow> caught e
                    | Inr data \<Rightarrow>
                        (case verifyTransfer_response data st2 of
                           Inl e \<Rightarrow> caught (thrown e)
                         | Inr st' \<Rightarrow> st'))
         in st3\<lparr>overlay := False\<rparr>))"

definition bankPayload_of :: "json \<Rightarrow> json" where
  "bankPayload_of plain =
     or_else (js_or (js_or (js_or (get_prop (get_prop (Some plain) ''data'') ''bankTransfer'')
                                  (get_prop (Some plain) ''bankTransfer''))
                           (get_prop (get_prop (Some plain) ''data'') ''bank''))
                    (get_prop (Some plain) ''bank''))
             JNull"

definition bank_field :: "json \<Rightarrow> string \<Rightarrow> string \<Rightarrow> json" where
  \<comment> \<open>\<open>bankPayload.a ?? bankPayload.b ?? ""\<close>\<close>
  "bank_field bankPayload a b =
     nullish (nullish_opt (get_prop (Some bankPayload) a) (get_prop (Some bankPayload) b)) (JStr [])"

definition proceedBank_response :: "json \<Rightarrow> widget \<Rightarrow> widget" where
  "proceedBank_response data st =
     (let plain = unwrap data;
          bankPayload = bankPayload_of plain;
          bt = (if truthy (Some bankPayload)
                then Some \<lparr>bankName = bank_field bankPayload ''bankName'' ''bank_name'',
                           accountName = bank_field bankPayload ''accountName'' ''account_name'',
                           accountNumber = bank_field bankPayload ''accountNumber'' ''account_number'',
                           referenceCode = bank_field bankPayload ''referenceCode'' ''reference''\<rparr>
                else None)
      in case bt of
           None \<Rightarrow> st\<lparr>errorMsg := JStr ''Bank account details were not returned by the server.''\<rparr>
         | Some b \<Rightarrow>
             if \<not> truthy (Some (accountNumber b))
             then st\<lparr>errorMsg := JStr ''Bank account details were not returned by the server.''\<rparr>
             else st\<lparr>bankDetails := Some b, transferStep := 2,
                     successMsg := JStr ''Bank account generated successfully. Complete the transfer using the details below.''\<rparr>)"

definition proceedBank :: "axios_error + json \<Rightarrow> widget \<Rightarrow> widget" where
  "proceedBank resp st =
     (if \<not> truthy (Some (transactionId st))
      then st\<lparr>errorMsg := JStr ''Transaction could not be initialized. Please retry.''\<rparr>
      else
        (let st1 = st\<lparr>overlay := True, errorMsg := JNull, successMsg := JNull,
                      transferVerified := False, transferVerifyCooldownSec := 0\<rparr>;
             st2 = st1\<lparr>requests := requests st1 @ [''/bank-details'']\<rparr>;
             st3 = (case resp of
                      Inl e \<Rightarrow> st2\<lparr>errorMsg := error_message e ''Could not generate bank details.''\<rparr>
                    | Inr data \<Rightarrow> proceedBank_response data st2)
         in st3\<lparr>overlay := False\<rparr>))"

definition selectTab :: "ActiveTab \<Rightarrow> widget \<Rightarrow> widget" where
  \<comment> \<open>the \<open>onClick\<close> of the two tab buttons\<close>
  "selectTab tab st =
     (case tab of
        Card \<Rightarrow> (resetCardAuthFlow st)
                  \<lparr>active := Card, cardStep := 1, errorMsg := JNull, successMsg := JNull\<rparr>
      | Transfer \<Rightarrow> (resetCardAuthFlow st)
                  \<lparr>active := Transfer, transferStep := 1, errorMsg := JNull, successMsg := JNull\<rparr>)"

definition countdown :: "int \<Rightarrow> int" where
  \<comment> \<open>\<open>(seconds) => (seconds <= 1 ? 0 : seconds - 1)\<close>\<close>
  "countdown seconds = (if seconds \<le> 1 then 0 else seconds - 1)"

definition cooldownTick :: "widget \<Rightarrow> widget" where
  \<comment> \<open>the interval of the cooldown effect, installed only while the cooldown is positive\<close>
  "cooldownTick st =
     (if transferVerifyCooldownSec st \<le> 0 then st
      else st\<lparr>transferVerifyCooldownSec := countdown (transferVerifyCooldownSec st)\<rparr>)"

definition redirectCountdownTick :: "widget \<Rightarrow> widget" where
  "redirectCountdownTick st =
     (if cardRedirectCountdownTimerRef st
      then st\<lparr>cardRedirectCountdownSec := countdown (cardRedirectCountdownSec st)\<rparr>
      else st)"

definition redirectTimerFires :: "widget \<Rightarrow> widget" where
  "redirectTimerFires st =
     (case cardRedirectTimerRef st of
        None \<Rightarrow> st
      | Some url \<Rightarrow> st\<lparr>navigatedTo := Some url\<rparr>)"

definition successCallbackFires :: "widget \<Rightarrow> widget" where
  "successCallbackFires st =
     (case successCallbackTimerRef st of
        None \<Rightarrow> st
      | Some payload \<Rightarrow>
          st\<lparr>onSuccessCalls := onSuccessCalls st @ [payload], successCallbackTimerRef := None\<rparr>)"

datatype event =
    Submit "nat \<times> nat" ActiveTab "axios_error + json"
  | VerifyCardOtp "axios_error + json"
  | VerifyTransfer "axios_error + json"
  | ProceedBank "axios_error + json"
  | SelectTab ActiveTab
  | CooldownTick
  | RedirectCountdownTick
  | RedirectTimerFires
  | SuccessCallbackFires

fun step :: "widget \<Rightarrow> event \<Rightarrow> widget" where
  "step st (Submit now method resp) = submit now method resp st"
| "step st (VerifyCardOtp resp) = verifyCardOtp resp st"
| "step st (VerifyTransfer resp) = verifyTransfer resp st"
| "step st (ProceedBank resp) = proceedBank resp st"
| "step st (SelectTab tab) = selectTab tab st"
| "step st CooldownTick = cooldownTick st"
| "step st RedirectCountdownTick = redirectCountdownTick st"
| "step st RedirectTimerFires = redirectTimerFires st"
| "step st SuccessCallbackFires = successCallbackFires st"

definition run :: "widget \<Rightarrow> event list \<Rightarrow> widget" where
  "run st evs = foldl step st evs"

fun is_ProceedBank :: "event \<Rightarrow> bool" where
  "is_ProceedBank (ProceedBank resp) = True"
| "is_ProceedBank ev = False"

section \<open>Initialization\<close>

definition transaction_id_of :: "json \<Rightarrow> json" where
  \<comment> \<open>the chain of \<open>||\<close> that computes \<open>tId\<close>\<close>
  "transaction_id_of plain =
     or_else
       (js_or (js_or (js_or (js_or (js_or (js_or (js_or
          (get_prop (get_prop (Some plain) ''data'') ''transaction_id'')
          (get_prop (get_prop (Some plain) ''data'') ''transactionId''))
          (get_prop (Some plain) ''transaction_id''))
          (get_prop (Some plain) ''transactionId''))
          (get_prop (get_prop (Some plain) ''data'') ''id''))
          (get_prop (Some plain) ''id''))
          (get_prop (get_prop (Some plain) ''data'') ''reference''))
          (get_prop (Some plain) ''reference''))
       JNull"

definition initPayment_start :: "widget \<Rightarrow> widget" where
  "initPayment_start st = st\<lparr>init := Loading, errorMsg := JNull, successMsg := JNull\<rparr>"

definition initPayment_settled :: "bool \<Rightarrow> axios_error + json \<Rightarrow> widget \<Rightarrow> widget" where
  \<comment> \<open>\<open>initPayment\<close> after \<open>await request\<close>; \<open>mounted\<close> is the flag of the effect\<close>
  "initPayment_settled mounted outcome st =
     (case outcome of
        Inr data \<Rightarrow>
          (let plain = unwrap data
           in if \<not> mounted then st
              else st\<lparr>transactionId := transaction_id_of plain, init := InitSuccess plain\<rparr>)
      | Inl e \<Rightarrow>
          (let msg = error_message e ''Unable to initialize payment, please try again.''
           in if \<not> mounted then st
              else st\<lparr>init := InitError msg, errorMsg := msg\<rparr>))"

fun first_truthy :: "json option list \<Rightarrow> json" where
  \<comment> \<open>the first truthy value of a list of candidates, \<open>null\<close> when there is none\<close>
  "first_truthy [] = JNull"
| "first_truthy (x # xs) = (case x of Some v \<Rightarrow> (if truthy x then v else first_truthy xs)
                                    | None \<Rightarrow> first_truthy xs)"

fun first_present_spec :: "json \<Rightarrow> string list \<Rightarrow> json" where
  \<comment> \<open>the extraction as the specification words it: the first field that is present\<close>
  "first_present_spec plain [] = JNull"
| "first_present_spec plain (k # ks) =
     (case get_prop (Some plain) k of Some v \<Rightarrow> v | None \<Rightarrow> first_present_spec plain ks)"

section \<open>The cache of initialization requests\<close>

text \<open>
  \<open>initRequestCache\<close> is a \<open>Map\<close> from the request key to a promise. A promise is
  identified by a number, fresh for each call of \<open>client.post\<close>; \<open>posts\<close> lists the
  requests sent to the network, with the promise each one made.
\<close>

type_synonym promise = nat

record init_cache =
  entries :: "string \<rightharpoonup> promise"
  posts :: "(string \<times> promise) list"
  next_promise :: promise

definition get_or_post :: "string \<Rightarrow> init_cache \<Rightarrow> promise \<times> init_cache" where
  \<comment> \<open>lines 368 to 379 of \<open>initPayment\<close>: the lookup, and the post when there is no entry\<close>
  "get_or_post requestKey c =
     (case entries c requestKey of
        Some request \<Rightarrow> (request, c)
      | None \<Rightarrow>
          (let request = next_promise c
           in (request,
               c\<lparr>entries := (entries c)(requestKey \<mapsto> request),
                 posts := posts c @ [(requestKey, request)],
                 next_promise := Suc request\<rparr>)))"

definition settled :: "string \<Rightarrow> promise \<Rightarrow> init_cache \<Rightarrow> init_cache" where
  \<comment> \<open>the \<open>finally\<close> callback of the promise \<open>request\<close> made for \<open>requestKey\<close>\<close>
  "settled requestKey request c =
     (if entries c requestKey = Some request
      then c\<lparr>entries := (entries c)(requestKey := None)\<rparr>
      else c)"

definition empty_cache :: init_cache where
  "empty_cache = \<lparr>entries = Map.empty, posts = [], next_promise = 0\<rparr>"

section \<open>Concrete states and responses\<close>

definition ready_widget :: widget where
  \<comment> \<open>a widget after a successful initialization, with the card form filled in\<close>
  "ready_widget =
     (initial_widget Card)
       \<lparr>init := InitSuccess (JObj [(''transaction_id'', JStr ''tx_1'')]),
        transactionId := JStr ''tx_1'', cardStep := 2,
        cardNumber := ''4111 1111 1111 1111'', expiry := ''12/30'', cvv := ''123'',
        pin := ''1234''\<rparr>"

definition failed_response :: json where
  "failed_response = JObj [(''status'', JStr ''failed'')]"

definition pending_response :: json where
  "pending_response = JObj [(''status'', JStr ''pending''), (''message'', JStr ''Awaiting bank'')]"

definition confirmed_response :: json where
  "confirmed_response = JObj [(''status'', JStr ''successful'')]"

definition bank_response :: json where
  "bank_response =
     JObj [(''bank'', JObj [(''bank_name'', JStr ''Gecko Bank''),
                            (''account_name'', JStr ''Gecko Pay''),
                            (''account_number'', JStr ''0123456789''),
                            (''reference'', JStr ''REF1'')])]"

section \<open>Stable serialization of a request\<close>

text \<open>
  \<open>stableSerialize\<close> takes any JavaScript value, and what it does depends on which
  objects are the same object. So the values it reads live in a store: a value is a
  primitive or a reference, and the store gives each address its object, which is a
  plain object (its own enumerable properties, in insertion order), an array or a
  \<open>Date\<close>. A \<open>Date\<close> is given by what \<open>toISOString\<close> returns for it, \<open>None\<close> for an
  invalid date, on which \<open>toISOString\<close> throws. A property list denotes the object
  whose keys are the distinct keys of the list, each with its first value. A number
  and a \<open>BigInt\<close> are carried as the text that \<open>toString\<close> gives for them (\<open>NaN\<close> and
  \<open>Infinity\<close> for the numbers that are not finite).
\<close>

type_synonym addr = nat

datatype jsval =
    VUndefined
  | VNull
  | VBool bool
  | VNum string
  | VBigInt string
  | VStr string
  | VFunction
  | VSymbol
  | VRef addr

datatype cell =
    ObjCell "(string \<times> jsval) list"
  | ArrCell "jsval list"
  | DateCell "string option"

type_synonym heap = "addr \<Rightarrow> cell"

text \<open>
  What \<open>normalize\<close> returns is built afresh and shares nothing: a tree. A primitive is
  returned as it is, so \<open>undefined\<close>, functions and symbols can occur at the top and in
  arrays. An object of the tree lists its properties in the order in which
  \<open>JSON.stringify\<close> enumerates them.
\<close>

datatype nval =
    NUndefined
  | NNull
  | NBool bool
  | NNum string
  | NBigInt string
  | NStr string
  | NFunction
  | NSymbol
  | NArr "nval list"
  | NObj "(string \<times> nval) list"

definition Object_keys :: "(string \<times> jsval) list \<Rightarrow> string list" where
  "Object_keys fs = remdups (map fst fs)"

definition lookup :: "(string \<times> jsval) list \<Rightarrow> string \<Rightarrow> jsval" where
  \<comment> \<open>\<open>input[key]\<close>\<close>
  "lookup fs key = (case map_of fs key of None \<Rightarrow> VUndefined | Some v \<Rightarrow> v)"

definition dropped :: "jsval \<Rightarrow> bool" where
  \<comment> \<open>\<open>typeof next\<close> is \<open>"undefined"\<close>, \<open>"function"\<close> or \<open>"symbol"\<close>\<close>
  "dropped next = (next = VUndefined \<or> next = VFunction \<or> next = VSymbol)"

fun set_prop :: "(string \<times> nval) list \<Rightarrow> string \<Rightarrow> nval \<Rightarrow> (string \<times> nval) list" where
  "set_prop [] k v = [(k, v)]"
| "set_prop ((k', v') # ps) k v =
     (if k' = k then (k, v) # ps else (k', v') # set_prop ps k v)"

definition assign :: "(string \<times> nval) list \<Rightarrow> string \<Rightarrow> nval \<Rightarrow> (string \<times> nval) list" where
  \<comment> \<open>\<open>acc[key] = v\<close> on an object made by \<open>{}\<close>: the key \<open>__proto__\<close> reaches the setter
      of \<open>Object.prototype\<close> and makes no own property\<close>
  "assign acc key v = (if key = ''__proto__'' then acc else set_prop acc key v)"

definition is_index :: "string \<Rightarrow> bool" where
  \<comment> \<open>an integer index: the canonical decimal form of a number below \<open>2^32 - 1\<close>\<close>
  "is_index k =
     (k \<noteq> [] \<and> list_all is_digit k \<and> (k = ''0'' \<or> hd k \<noteq> CHR ''0'')
      \<and> (length k < 10 \<or> (length k = 10 \<and> k < ''4294967295'')))"

definition index_value :: "string \<Rightarrow> nat" where
  "index_value k = foldl (\<lambda>n c. 10 * n + (of_char c - 48)) 0 k"

definition own_keys_order :: "(string \<times> nval) list \<Rightarrow> (string \<times> nval) list" where
  \<comment> \<open>the order of own properties: integer indices ascending, then the other keys
      in insertion order\<close>
  "own_keys_order ps =
     sort_key (\<lambda>p. index_value (fst p)) (filter (\<lambda>p. is_index (fst p)) ps)
     @ filter (\<lambda>p. \<not> is_index (fst p)) ps"

fun prim :: "jsval \<Rightarrow> nval" where
  "prim VUndefined = NUndefined"
| "prim VNull = NNull"
| "prim (VBool b) = NBool b"
| "prim (VNum n) = NNum n"
| "prim (VBigInt n) = NBigInt n"
| "prim (VStr s) = NStr s"
| "prim VFunction = NFunction"
| "prim VSymbol = NSymbol"
| "prim (VRef a) = NUndefined"

text \<open>
  \<open>seen\<close> is the \<open>WeakSet\<close> that every call of \<open>normalize\<close> within one serialization
  shares: it is threaded through the elements of an array (\<open>input.map(normalize)\<close>) and
  through the keys of an object (the \<open>reduce\<close>), and an error stops the traversal.
\<close>

fun map_elems ::
  "(addr set \<Rightarrow> jsval \<Rightarrow> js_error + nval \<times> addr set) \<Rightarrow> addr set \<Rightarrow> jsval list
     \<Rightarrow> js_error + nval list \<times> addr set" where
  "map_elems norm seen [] = Inr ([], seen)"
| "map_elems norm seen (x # xs) =
     (case norm seen x of
        Inl e \<Rightarrow> Inl e
      | Inr (y, seen') \<Rightarrow>
          (case map_elems norm seen' xs of
             Inl e \<Rightarrow> Inl e
           | Inr (ys, seen'') \<Rightarrow> Inr (y # ys, seen'')))"

fun reduce_keys ::
  "(addr set \<Rightarrow> jsval \<Rightarrow> js_error + nval \<times> addr set) \<Rightarrow> (string \<times> jsval) list
     \<Rightarrow> addr set \<Rightarrow> (string \<times> nval) list \<Rightarrow> string list
     \<Rightarrow> js_error + (string \<times> nval) list \<times> addr set" where
  "reduce_keys norm fs seen acc [] = Inr (acc, seen)"
| "reduce_keys norm fs seen acc (key # keys) =
     (let next = lookup fs key
      in if dropped next then reduce_keys norm fs seen acc keys
         else (case norm seen next of
                 Inl e \<Rightarrow> Inl e
               | Inr (v, seen') \<Rightarrow> reduce_keys norm fs seen' (assign acc key v) keys))"

text \<open>
  \<open>normalize_val\<close> is the inner function \<open>normalize\<close> of the source (HOL has a
  constant of that name). Its first argument is the depth of call stack that is left. The
  recursion of the source has no other bound: an array is never put into \<open>seen\<close>, so on
  an array that contains itself the calls nest until the stack is exhausted and the
  engine throws a \<open>RangeError\<close> (\<open>StackOverflow\<close>). \<open>toISOString\<close> throws a \<open>RangeError\<close>
  on an invalid date (\<open>InvalidDate\<close>).
\<close>

fun normalize_val :: "nat \<Rightarrow> heap \<Rightarrow> addr set \<Rightarrow> jsval \<Rightarrow> js_error + nval \<times> addr set" where
  "normalize_val 0 h seen input = Inl StackOverflow"
| "normalize_val (Suc d) h seen input =
     (case input of
        VRef a \<Rightarrow>
          (case h a of
             DateCell t \<Rightarrow>
               (case t of None \<Rightarrow> Inl InvalidDate | Some s \<Rightarrow> Inr (NStr s, seen))
           | ArrCell xs \<Rightarrow>
               (case map_elems (\<lambda>s x. normalize_val d h s x) seen xs of
                  Inl e \<Rightarrow> Inl e
                | Inr (ys, seen') \<Rightarrow> Inr (NArr ys, seen'))
           | ObjCell fs \<Rightarrow>
               if a \<in> seen then Inr (NStr ''[Circular]'', seen)
               else (case reduce_keys (\<lambda>s x. normalize_val d h s x) fs (insert a seen) []
                            (sort (Object_keys fs)) of
                       Inl e \<Rightarrow> Inl e
                     | Inr (acc, seen') \<Rightarrow> Inr (NObj (own_keys_order acc), seen')))
      | _ \<Rightarrow> Inr (prim input, seen))"

subsection \<open>\<open>JSON.stringify\<close> on a normalized value\<close>

definition hex_digit :: "nat \<Rightarrow> char" where
  "hex_digit n = (if n < 10 then char_of (48 + n) else char_of (87 + n))"

definition escape_char :: "char \<Rightarrow> string" where
  "escape_char c =
     (let n = (of_char c :: nat)
      in if n = 34 then [CHR 0x5C, CHR 0x22]
         else if n = 92 then [CHR 0x5C, CHR 0x5C]
         else if n = 8 then [CHR 0x5C, CHR ''b'']
         else if n = 12 then [CHR 0x5C, CHR ''f'']
         else if n = 10 then [CHR 0x5C, CHR ''n'']
         else if n = 13 then [CHR 0x5C, CHR ''r'']
         else if n = 9 then [CHR 0x5C, CHR ''t'']
         else if n < 32 then [CHR 0x5C, CHR ''u'', CHR ''0'', CHR ''0'',
                              hex_digit (n div 16), hex_digit (n mod 16)]
         else [c])"

definition quote :: "string \<Rightarrow> string" where
  "quote s = CHR 0x22 # concat (map escape_char s) @ [CHR 0x22]"

definition skipped :: "nval \<Rightarrow> bool" where
  \<comment> \<open>values that \<open>JSON.stringify\<close> leaves out of an object and prints as \<open>null\<close> in an array\<close>
  "skipped v = (v = NUndefined \<or> v = NFunction \<or> v = NSymbol)"

fun json_text :: "nval \<Rightarrow> string" where
  "json_text NNull = ''null''"
| "json_text (NBool b) = (if b then ''true'' else ''false'')"
| "json_text (NNum n) = (if n \<in> set [''NaN'', ''Infinity'', ''-Infinity''] then ''null'' else n)"
| "json_text (NStr s) = quote s"
| "json_text (NArr xs) =
     CHR ''['' # join_comma (map (\<lambda>x. if skipped x then ''null'' else json_text x) xs) @ '']''"
| "json_text (NObj ps) =
     CHR ''{'' # join_comma (map (\<lambda>p. quote (fst p) @ CHR '':'' # json_text (snd p))
                              (filter (\<lambda>p. \<not> skipped (snd p)) ps)) @ ''}''"
| "json_text NUndefined = []"
| "json_text NFunction = []"
| "json_text NSymbol = []"
| "json_text (NBigInt n) = []"

fun has_bigint :: "nval \<Rightarrow> bool" where
  "has_bigint (NBigInt n) = True"
| "has_bigint (NArr xs) = list_ex has_bigint xs"
| "has_bigint (NObj ps) = list_ex (\<lambda>p. has_bigint (snd p)) ps"
| "has_bigint v = False"

definition JSON_stringify :: "nval \<Rightarrow> js_error + string option" where
  \<comment> \<open>\<open>None\<close> is \<open>undefined\<close>, the result on \<open>undefined\<close>, a function or a symbol; a
      \<open>BigInt\<close> anywhere in the value makes \<open>JSON.stringify\<close> throw a \<open>TypeError\<close>\<close>
  "JSON_stringify v =
     (if has_bigint v then Inl TypeError
      else if skipped v then Inr None else Inr (Some (json_text v)))"

text \<open>
  The result of \<open>stableSerialize\<close>: a text, or nothing when \<open>JSON.stringify\<close> returned
  \<open>undefined\<close>, or an error that it throws. The \<open>catch\<close> branch returns
  \<open>String(value)\<close>, which is outside the \<open>try\<close>. On a plain object the conversion
  looks for the property \<open>toString\<close>, then \<open>valueOf\<close>: without an own \<open>toString\<close> the
  inherited one answers \<open>[object Object]\<close>; an own \<open>toString\<close> that is not a function
  is passed over, and when \<open>valueOf\<close> is no function of the object either (the
  inherited one gives the object back) the conversion throws a \<open>TypeError\<close>. Where
  the conversion runs code or reads data that the store does not hold, the result is
  \<open>Opaque\<close>: a function \<open>toString\<close> or \<open>valueOf\<close> of the object, the join of an array,
  the local form of a valid date, the source of a function, the description of a
  symbol. Nothing is known of an opaque result: it may be a throw, and two opaque
  results need not be the same.
\<close>

datatype serialized =
    Text string
  | NoText
  | Throws js_error
  | Opaque

definition String_value :: "heap \<Rightarrow> jsval \<Rightarrow> serialized" where
  \<comment> \<open>\<open>String(value)\<close>\<close>
  "String_value h v =
     (case v of
        VUndefined \<Rightarrow> Text ''undefined''
      | VNull \<Rightarrow> Text ''null''
      | VBool b \<Rightarrow> Text (if b then ''true'' else ''false'')
      | VNum n \<Rightarrow> Text n
      | VBigInt n \<Rightarrow> Text n
      | VStr s \<Rightarrow> Text s
      | VFunction \<Rightarrow> Opaque
      | VSymbol \<Rightarrow> Opaque
      | VRef a \<Rightarrow>
          (case h a of
             DateCell t \<Rightarrow> (case t of None \<Rightarrow> Text ''Invalid Date'' | Some s \<Rightarrow> Opaque)
           | ArrCell xs \<Rightarrow> Opaque
           | ObjCell fs \<Rightarrow>
               (case map_of fs ''toString'' of
                  None \<Rightarrow> Text ''[object Object]''
                | Some VFunction \<Rightarrow> Opaque
                | Some x \<Rightarrow>
                    (case map_of fs ''valueOf'' of
                       Some VFunction \<Rightarrow> Opaque
                     | _ \<Rightarrow> Throws TypeError))))"

definition stableSerialize :: "nat \<Rightarrow> heap \<Rightarrow> jsval \<Rightarrow> serialized" where
  "stableSerialize d h v =
     (case normalize_val d h {} v of
        Inr (n, seen) \<Rightarrow>
          (case JSON_stringify n of
             Inr (Some s) \<Rightarrow> Text s
           | Inr None \<Rightarrow> NoText
           | Inl e \<Rightarrow> String_value h v)
      | Inl e \<Rightarrow> String_value h v)"

definition requestKey :: "nat \<Rightarrow> heap \<Rightarrow> addr \<Rightarrow> string \<Rightarrow> string \<Rightarrow> jsval \<Rightarrow> serialized" where
  \<comment> \<open>the key of \<open>initPayment\<close>: the object literal is allocated at the fresh address \<open>lit\<close>\<close>
  "requestKey d h lit baseURL publicKey payload =
     stableSerialize d
       (h(lit := ObjCell [(''baseURL'', VStr baseURL), (''path'', VStr ''/initialize''),
                          (''publicKey'', VStr publicKey), (''payload'', payload)]))
       (VRef lit)"

subsection \<open>Relations between payloads\<close>

definition live :: "jsval option \<Rightarrow> jsval option" where
  \<comment> \<open>a property as serialization sees it: one that holds \<open>undefined\<close>, a function or a
      symbol is as good as absent\<close>
  "live x = (case x of None \<Rightarrow> None | Some v \<Rightarrow> if dropped v then None else Some v)"



fun structure_of :: "nat \<Rightarrow> heap \<Rightarrow> jsval \<Rightarrow> nval option" where
  \<comment> \<open>the value as a tree, each reference replaced by a copy of its object, down to the
      given depth: two values are structurally equal when they have the same tree\<close>
  "structure_of 0 h v = None"
| "structure_of (Suc d) h v =
     (case v of
        VRef a \<Rightarrow>
          (case h a of
             DateCell t \<Rightarrow> map_option NStr t
           | ArrCell xs \<Rightarrow>
               (let ys = map (\<lambda>x. structure_of d h x) xs
                in if None \<in> set ys then None else Some (NArr (map the ys)))
           | ObjCell fs \<Rightarrow>
               (let ps = map (\<lambda>k. (k, structure_of d h (lookup fs k))) (sort (Object_keys fs))
                in if None \<in> snd ` set ps then None
                   else Some (NObj (map (\<lambda>p. (fst p, the (snd p))) ps))))
      | _ \<Rightarrow> Some (prim v))"

definition acyclic_arrays :: "heap \<Rightarrow> bool" where
  \<comment> \<open>no array contains itself through arrays only: the arrays can be ranked so that
      an array directly inside an array has a smaller rank\<close>
  "acyclic_arrays h =
     (\<exists>rank :: addr \<Rightarrow> nat.
        \<forall>a xs b ys. h a = ArrCell xs \<and> VRef b \<in> set xs \<and> h b = ArrCell ys \<longrightarrow> rank b < rank a)"

definition finite_objects :: "heap \<Rightarrow> bool" where
  \<comment> \<open>finitely many plain objects have a property\<close>
  "finite_objects h = finite {a. \<exists>fs. h a = ObjCell fs \<and> fs \<noteq> []}"

definition settles :: "heap \<Rightarrow> addr set \<Rightarrow> jsval \<Rightarrow> bool" where
  \<comment> \<open>the traversal comes to an end by itself: from some depth of stack on it gives one
      and the same result, which is not the exhaustion of the stack\<close>
  "settles h seen v =
     (\<exists>d0 r. r \<noteq> Inl StackOverflow \<and> (\<forall>d \<ge> d0. normalize_val d h seen v = r))"

subsection \<open>The objects that a traversal reaches\<close>

text \<open>
  The plain objects that \<open>normalize\<close> meets in a value without entering any plain
  object: the value itself, or, through arrays, an element. The children of a plain
  object are the objects met in the properties that are not dropped. The traversal of
  \<open>v\<close> that starts with the marks \<open>seen\<close> reaches the objects met in \<open>v\<close> and the
  children of every object that it reaches and that \<open>seen\<close> does not hold.
\<close>

inductive meets :: "heap \<Rightarrow> jsval \<Rightarrow> addr \<Rightarrow> bool" for h :: heap where
  meets_object: "h b = ObjCell fs \<Longrightarrow> meets h (VRef b) b"
| meets_element: "h a = ArrCell xs \<Longrightarrow> x \<in> set xs \<Longrightarrow> meets h x b \<Longrightarrow> meets h (VRef a) b"

definition child :: "heap \<Rightarrow> addr \<Rightarrow> addr \<Rightarrow> bool" where
  "child h c b =
     (\<exists>fs k. h c = ObjCell fs \<and> k \<in> set (Object_keys fs) \<and> \<not> dropped (lookup fs k)
             \<and> meets h (lookup fs k) b)"

inductive reaches :: "heap \<Rightarrow> addr set \<Rightarrow> jsval \<Rightarrow> addr \<Rightarrow> bool"
  for h :: heap and seen :: "addr set" and v :: jsval where
  reaches_met: "meets h v b \<Longrightarrow> reaches h seen v b"
| reaches_child: "reaches h seen v c \<Longrightarrow> c \<notin> seen \<Longrightarrow> child h c b \<Longrightarrow> reaches h seen v b"

definition marks_closed :: "heap \<Rightarrow> addr set \<Rightarrow> addr set \<Rightarrow> bool" where
  \<comment> \<open>every object marked since \<open>seen\<close> has all its children marked\<close>
  "marks_closed h seen seen' = (\<forall>c b. c \<in> seen' \<and> c \<notin> seen \<and> child h c b \<longrightarrow> b \<in> seen')"

subsection \<open>Concrete payloads\<close>

definition empty_heap :: heap where
  "empty_heap = (\<lambda>a. ObjCell [])"



definition heap_ab_ba :: heap where
  \<comment> \<open>both literals in one store: \<open>{a: 1, b: 2}\<close> at address 1, \<open>{b: 2, a: 1}\<close> at address 2\<close>
  "heap_ab_ba =
     empty_heap(1 := ObjCell [(''a'', VNum ''1''), (''b'', VNum ''2'')],
                2 := ObjCell [(''b'', VNum ''2''), (''a'', VNum ''1'')])"



definition heap_shared :: heap where
  \<comment> \<open>\<open>const o = {}; const p = {a: o, b: o}\<close>, with \<open>p\<close> at address 0 and \<open>o\<close> at 1\<close>
  "heap_shared = empty_heap(0 := ObjCell [(''a'', VRef 1), (''b'', VRef 1)])"

definition heap_copies :: heap where
  \<comment> \<open>\<open>const p = {a: {}, b: {}}\<close>, with \<open>p\<close> at address 0 and the two objects at 1 and 2\<close>
  "heap_copies = empty_heap(0 := ObjCell [(''a'', VRef 1), (''b'', VRef 2)])"

definition heap_shared_array :: heap where
  \<comment> \<open>\<open>const xs = [1]; const p = {a: xs, b: xs}\<close>, with \<open>p\<close> at address 0 and \<open>xs\<close> at 1\<close>
  "heap_shared_array =
     empty_heap(0 := ObjCell [(''a'', VRef 1), (''b'', VRef 1)], 1 := ArrCell [VNum ''1''])"

definition heap_cyclic_array :: heap where
  \<comment> \<open>\<open>const xs = []; xs.push(xs); const p = {a: xs}\<close>, with \<open>p\<close> at address 0 and \<open>xs\<close> at 1\<close>
  "heap_cyclic_array =
     empty_heap(0 := ObjCell [(''a'', VRef 1)], 1 := ArrCell [VRef 1])"

definition heap_cyclic_object :: heap where
  \<comment> \<open>\<open>const p = {}; p.self = p\<close>, with \<open>p\<close> at address 0\<close>
  "heap_cyclic_object = empty_heap(0 := ObjCell [(''self'', VRef 0)])"

definition heap_object_array_cycle :: heap where
  \<comment> \<open>\<open>const p = {}; p.list = [p, [1]]\<close>, with \<open>p\<close> at address 0, the outer array at 1
      and the inner array at 2\<close>
  "heap_object_array_cycle =
     empty_heap(0 := ObjCell [(''list'', VRef 1)], 1 := ArrCell [VRef 0, VRef 2],
                2 := ArrCell [VNum ''1''])"

definition heap_nested_shared :: heap where
  \<comment> \<open>\<open>const o = {}; const p = {a: {x: o}, b: o}\<close>, with \<open>p\<close> at address 0, \<open>o\<close> at 1
      and \<open>{x: o}\<close> at 2\<close>
  "heap_nested_shared =
     empty_heap(0 := ObjCell [(''a'', VRef 2), (''b'', VRef 1)], 2 := ObjCell [(''x'', VRef 1)])"

definition heap_unconvertible :: heap where
  \<comment> \<open>\<open>const xs = []; xs.push(xs); const p = {toString: 1, a: xs}\<close>, with \<open>p\<close> at
      address 0 and \<open>xs\<close> at 1\<close>
  "heap_unconvertible =
     empty_heap(0 := ObjCell [(''toString'', VNum ''1''), (''a'', VRef 1)], 1 := ArrCell [VRef 1])"

definition heap_array_twice :: heap where
  \<comment> \<open>\<open>const o = {}; const xs = [o, o]\<close>, with \<open>xs\<close> at address 0 and \<open>o\<close> at 1\<close>
  "heap_array_twice = empty_heap(0 := ArrCell [VRef 1, VRef 1])"

section \<open>Properties of validation and classification\<close>

lemma digit_not_space: "is_digit c \<Longrightarrow> \<not> is_space c"
  by (auto simp: is_digit_def is_space_def)

lemma Number_char_digit: "is_digit c \<Longrightarrow> Number_char c = Some (of_char c - 48)"
  by (simp add: Number_char_def)

lemma cardDigits_of_digits: "list_all is_digit d \<Longrightarrow> cardDigits d = d"
  unfolding cardDigits_def by (induction d) (auto simp: digit_not_space)

lemma char_between:
  "in_range lo hi c = (c \<in> char_of ` set [of_char lo ..< Suc (of_char hi :: nat)])"
proof
  assume "in_range lo hi c"
  then have "(of_char lo :: nat) \<le> of_char c \<and> (of_char c :: nat) < Suc (of_char hi)"
    unfolding in_range_def by arith
  then have "(of_char c :: nat) \<in> set [of_char lo ..< Suc (of_char hi)]"
    by (simp only: set_upt atLeastLessThan_iff)
  then have "char_of (of_char c :: nat) \<in> char_of ` set [of_char lo ..< Suc (of_char hi :: nat)]"
    by (rule imageI)
  then show "c \<in> char_of ` set [of_char lo ..< Suc (of_char hi :: nat)]"
    by simp
next
  assume "c \<in> char_of ` set [of_char lo ..< Suc (of_char hi :: nat)]"
  then obtain n :: nat where n: "c = char_of n" "of_char lo \<le> n" "n \<le> of_char hi"
    by auto
  have "of_char hi < (256 :: nat)"
    by simp
  with n(3) have "n < 256"
    by (rule le_less_trans)
  then have "n mod 256 = n"
    by simp
  with n show "in_range lo hi c"
    by (simp add: in_range_def)
qed

lemma digit_chars:
  "char_of (48 :: nat) = CHR ''0''" "char_of (49 :: nat) = CHR ''1''"
  "char_of (50 :: nat) = CHR ''2''" "char_of (51 :: nat) = CHR ''3''"
  "char_of (52 :: nat) = CHR ''4''" "char_of (53 :: nat) = CHR ''5''"
  "char_of (54 :: nat) = CHR ''6''" "char_of (55 :: nat) = CHR ''7''"
  "char_of (56 :: nat) = CHR ''8''" "char_of (57 :: nat) = CHR ''9''"
  by (simp_all add: char_of_eq_iff)

lemma ranges:
  "in_range CHR ''1'' CHR ''5'' c = (c \<in> set ''12345'')"
  "in_range CHR ''2'' CHR ''9'' c = (c \<in> set ''23456789'')"
  "in_range CHR ''3'' CHR ''6'' c = (c \<in> set ''3456'')"
  "in_range CHR ''0'' CHR ''1'' c = (c \<in> set ''01'')"
  "in_range CHR ''4'' CHR ''9'' c = (c \<in> set ''456789'')"
  "is_digit c = (c \<in> set ''0123456789'')"
proof -
  have d: "is_digit c = in_range CHR ''0'' CHR ''9'' c"
    by (simp add: is_digit_def in_range_def)
  show "in_range CHR ''1'' CHR ''5'' c = (c \<in> set ''12345'')"
    "in_range CHR ''2'' CHR ''9'' c = (c \<in> set ''23456789'')"
    "in_range CHR ''3'' CHR ''6'' c = (c \<in> set ''3456'')"
    "in_range CHR ''0'' CHR ''1'' c = (c \<in> set ''01'')"
    "in_range CHR ''4'' CHR ''9'' c = (c \<in> set ''456789'')"
    "is_digit c = (c \<in> set ''0123456789'')"
    unfolding d char_between by (simp_all add: upt_rec digit_chars) 
qed

lemma starts_with_spec:
  "list_all2 (\<lambda>P allowed. \<forall>c. P c = (c \<in> set allowed)) Ps rule \<Longrightarrow>
     starts_with Ps d = matches_prefix_spec rule d"
proof (induction Ps rule arbitrary: d rule: list_all2_induct)
  case Nil
  then show ?case by simp
next
  case (Cons P Ps allowed rule)
  then show ?case by (cases d) simp_all
qed

lemma prefix_rules:
  "starts_with [(=) CHR ''4''] d = matches_prefix_spec [''4''] d"
  "starts_with [(=) CHR ''5'', in_range CHR ''1'' CHR ''5''] d = matches_prefix_spec [''5'', ''12345''] d"
  "starts_with [(=) CHR ''2'', (=) CHR ''2'', in_range CHR ''2'' CHR ''9''] d
     = matches_prefix_spec [''2'', ''2'', ''23456789''] d"
  "starts_with [(=) CHR ''2'', in_range CHR ''3'' CHR ''6'', is_digit] d
     = matches_prefix_spec [''2'', ''3456'', ''0123456789''] d"
  "starts_with [(=) CHR ''2'', (=) CHR ''7'', in_range CHR ''0'' CHR ''1''] d
     = matches_prefix_spec [''2'', ''7'', ''01''] d"
  "starts_with [(=) CHR ''2'', (=) CHR ''7'', (=) CHR ''2'', (=) CHR ''0''] d
     = matches_prefix_spec [''2'', ''7'', ''2'', ''0''] d"
  "starts_with [(=) CHR ''3'', (\<lambda>c. c = CHR ''4'' \<or> c = CHR ''7'')] d
     = matches_prefix_spec [''3'', ''47''] d"
  "starts_with [(=) CHR ''6'', (=) CHR ''0'', (=) CHR ''1'', (=) CHR ''1''] d
     = matches_prefix_spec [''6'', ''0'', ''1'', ''1''] d"
  "starts_with [(=) CHR ''6'', (=) CHR ''5''] d = matches_prefix_spec [''6'', ''5''] d"
  "starts_with [(=) CHR ''6'', (=) CHR ''4'', in_range CHR ''4'' CHR ''9''] d
     = matches_prefix_spec [''6'', ''4'', ''456789''] d"
  "starts_with [(=) CHR ''6'', (=) CHR ''2'', (=) CHR ''2''] d
     = matches_prefix_spec [''6'', ''2'', ''2''] d"
  "starts_with [(=) CHR ''5'', (=) CHR ''0'', (=) CHR ''6'', (=) CHR ''0''] d
     = matches_prefix_spec [''5'', ''0'', ''6'', ''0''] d"
  "starts_with [(=) CHR ''5'', (=) CHR ''0'', (=) CHR ''6'', (=) CHR ''1''] d
     = matches_prefix_spec [''5'', ''0'', ''6'', ''1''] d"
  "starts_with [(=) CHR ''5'', (=) CHR ''0'', (=) CHR ''7'', (=) CHR ''8''] d
     = matches_prefix_spec [''5'', ''0'', ''7'', ''8''] d"
  "starts_with [(=) CHR ''5'', (=) CHR ''0'', (=) CHR ''7'', (=) CHR ''9''] d
     = matches_prefix_spec [''5'', ''0'', ''7'', ''9''] d"
  "starts_with [(=) CHR ''6'', (=) CHR ''5'', (=) CHR ''0'', (=) CHR ''0''] d
     = matches_prefix_spec [''6'', ''5'', ''0'', ''0''] d"
  by (rule starts_with_spec, force simp: ranges)+

lemma detectCardType_spec:
  "label (detectCardType d) = brand_label (detectBrand_spec d)"
  "set (lengths (detectCardType d)) = accepted_lengths_spec (detectBrand_spec d)"
  unfolding detectCardType_def detectBrand_spec_def brand_rules_spec_def prefix_rules
  by (auto simp del: matches_prefix_spec.simps)

lemma lengths_within_12_19:
  "n \<in> set (lengths (detectCardType d)) \<Longrightarrow> 12 \<le> n \<and> n \<le> 19"
  by (auto simp: detectCardType_def split: if_splits)

lemma luhn_loop_digits:
  "list_all is_digit s \<Longrightarrow>
     luhn_loop s acc False = ((acc + luhn_sum_spec (map (\<lambda>c. of_char c - 48) s)) mod 10 = 0)"
  by (induction s arbitrary: acc rule: induct_list012)
     (simp_all add: Number_char_digit Let_def add.assoc mult.commute)

lemma isValidLuhn_digits:
  "list_all is_digit s \<Longrightarrow> isValidLuhn s = (luhn_sum_spec (digit_values s) mod 10 = 0)"
  by (simp add: isValidLuhn_def digit_values_def luhn_loop_digits rev_map list_all_iff)

lemma luhn_loop_rejects:
  "c \<in> set s \<Longrightarrow> Number_char c = None \<Longrightarrow> \<not> luhn_loop s acc dbl"
  by (induction s arbitrary: acc dbl) (auto simp: Let_def split: option.splits)

lemma isValidLuhn_rejects:
  "c \<in> set s \<Longrightarrow> \<not> is_digit c \<Longrightarrow> \<not> is_space c \<Longrightarrow> \<not> isValidLuhn s"
  by (simp add: isValidLuhn_def luhn_loop_rejects Number_char_def)

lemma cardNumberValid_digits:
  "list_all is_digit d \<Longrightarrow>
     cardNumberValid d =
       (luhn_sum_spec (digit_values d) mod 10 = 0
        \<and> length d \<in> accepted_lengths_spec (detectBrand_spec d))"
  using lengths_within_12_19 [of "length d" d]
  by (auto simp: cardNumberValid_def matches_d12_19_def Let_def cardDigits_of_digits
        isValidLuhn_digits detectCardType_spec(2) [symmetric])

lemma cardNumberValid_strict:
  "cardNumberValid f =
     (matches_d12_19 (cardDigits f)
      \<and> length (cardDigits f) \<in> set (lengths (detectCardType (cardDigits f)))
      \<and> luhn_sum_spec (digit_values (cardDigits f)) mod 10 = 0)"
  by (auto simp: cardNumberValid_def matches_d12_19_def Let_def isValidLuhn_digits)

text \<open>
  Claim C5. For a digit string \<open>d\<close>, the card number is valid exactly when the Luhn
  sum of \<open>d\<close> (every second digit from the right doubled, minus 9 above 9) is
  congruent to 0 modulo 10 and the length of \<open>d\<close> is in the accepted set of its brand.
  The brand and the set are those of the specification: the brand is the first one in
  the order visa, mastercard, amex, discover, verve that has a prefix rule matching
  \<open>d\<close>, unknown when there is none, and the code detects this very brand, under its
  label, with this very set of lengths. The 16-digit number 4111111111111111 is a Visa
  number and valid; the 12-digit 411111111111 is detected as Visa and is invalid.
\<close>

theorem cardNumberValid_iff_luhn_and_brand_length:
  "list_all is_digit d \<Longrightarrow>
     (cardNumberValid d =
        (luhn_sum_spec (digit_values d) mod 10 = 0
         \<and> length d \<in> accepted_lengths_spec (detectBrand_spec d)))
     \<and> label (detectCardType d) = brand_label (detectBrand_spec d)
     \<and> set (lengths (detectCardType d)) = accepted_lengths_spec (detectBrand_spec d)
     \<and> detectBrand_spec ''4111111111111111'' = Visa
     \<and> label (detectCardType ''4111111111111111'') = ''Visa''
     \<and> cardNumberValid ''4111111111111111''
     \<and> detectBrand_spec ''411111111111'' = Visa
     \<and> label (detectCardType ''411111111111'') = ''Visa''
     \<and> \<not> cardNumberValid ''411111111111''"
proof -
  assume d: "list_all is_digit d"
  have "detectBrand_spec ''4111111111111111'' = Visa"
    by code_simp
  moreover have "label (detectCardType ''4111111111111111'') = ''Visa''"
    by code_simp
  moreover have "cardNumberValid ''4111111111111111''"
    by code_simp
  moreover have "detectBrand_spec ''411111111111'' = Visa"
    by code_simp
  moreover have "label (detectCardType ''411111111111'') = ''Visa''"
    by code_simp
  moreover have "\<not> cardNumberValid ''411111111111''"
    by code_simp
  ultimately show ?thesis
    using cardNumberValid_digits [OF d] detectCardType_spec [of d] by simp
qed

theorem cardNumberValid_iff_luhn_and_brand_length_witness:
  "list_all is_digit ''5500005555555559''
   \<and> detectBrand_spec ''5500005555555559'' = Mastercard
   \<and> label (detectCardType ''5500005555555559'') = ''Mastercard''
   \<and> luhn_sum_spec (digit_values ''5500005555555559'') mod 10 = 0
   \<and> cardNumberValid ''5500005555555559''"
proof -
  have h: "list_all is_digit ''5500005555555559''"
    by code_simp
  have b: "detectBrand_spec ''5500005555555559'' = Mastercard"
    by code_simp
  have v: "luhn_sum_spec (digit_values ''5500005555555559'') mod 10 = 0"
    by code_simp
  from cardNumberValid_iff_luhn_and_brand_length [OF h] h b v show ?thesis
    by simp
qed

text \<open>
  Claim C7, as stated: for every input string the Luhn check returns false if any
  character is a non-digit. The code converts each character with \<open>Number\<close> and
  rejects NaN only; white space converts to 0, so a string with blanks is summed as if
  each blank were the digit 0. The number 4111 1111 1111 1114, written with blanks, is
  accepted, although it holds non-digits and although its digits alone fail the check.
\<close>

theorem isValidLuhn_accepts_white_space:
  "isValidLuhn ''4111 1111 1111 1114''
   \<and> \<not> list_all is_digit ''4111 1111 1111 1114''
   \<and> \<not> isValidLuhn ''4111111111111114''"
  by code_simp

text \<open>
  Claim C7, amended. On a string of digits the Luhn check returns true exactly when
  the sum formed by doubling every second digit counting from the rightmost
  (subtracting 9 whenever a doubled digit exceeds 9) is congruent to 0 modulo 10, and
  on any string it returns false if a character is neither a digit nor white space.
  The widget calls the check behind the test \<open>^\d{12,19}$\<close> on the field value
  stripped of white space: a valid card number has digits only, and validity is what
  a check that rejects every non-digit gives. In particular the check is true for
  4532015112830366 and false for 4532015112830367.
\<close>

theorem isValidLuhn_checksum_on_digits:
  "(list_all is_digit s \<longrightarrow> isValidLuhn s = (luhn_sum_spec (digit_values s) mod 10 = 0))
   \<and> ((\<exists>c \<in> set s. \<not> is_digit c \<and> \<not> is_space c) \<longrightarrow> \<not> isValidLuhn s)
   \<and> (cardNumberValid f \<longrightarrow> list_all is_digit (cardDigits f))
   \<and> cardNumberValid f =
       (matches_d12_19 (cardDigits f)
        \<and> length (cardDigits f) \<in> set (lengths (detectCardType (cardDigits f)))
        \<and> luhn_sum_spec (digit_values (cardDigits f)) mod 10 = 0)
   \<and> isValidLuhn ''4532015112830366''
   \<and> \<not> isValidLuhn ''4532015112830367''"
proof -
  have digits: "list_all is_digit s \<longrightarrow> isValidLuhn s = (luhn_sum_spec (digit_values s) mod 10 = 0)"
    by (simp add: isValidLuhn_digits)
  have other: "(\<exists>c \<in> set s. \<not> is_digit c \<and> \<not> is_space c) \<longrightarrow> \<not> isValidLuhn s"
    using isValidLuhn_rejects by blast
  have guard: "cardNumberValid f \<longrightarrow> list_all is_digit (cardDigits f)"
    by (simp add: cardNumberValid_def matches_d12_19_def Let_def)
  have yes: "isValidLuhn ''4532015112830366''"
    by code_simp
  have no: "\<not> isValidLuhn ''4532015112830367''"
    by code_simp
  show ?thesis
    by (intro conjI digits other guard cardNumberValid_strict yes no)
qed

theorem isValidLuhn_checksum_on_digits_witness:
  "list_all is_digit ''4532015112830366''
   \<and> luhn_sum_spec (digit_values ''4532015112830366'') mod 10 = 0
   \<and> isValidLuhn ''4532015112830366''
   \<and> CHR ''x'' \<in> set ''4532x15112830366''
   \<and> \<not> is_digit CHR ''x'' \<and> \<not> is_space CHR ''x''
   \<and> \<not> isValidLuhn ''4532x15112830366''
   \<and> cardNumberValid ''4111 1111 1111 1111''
   \<and> list_all is_digit (cardDigits ''4111 1111 1111 1111'')"
proof -
  have a: "list_all is_digit ''4532015112830366''"
    by code_simp
  have b: "luhn_sum_spec (digit_values ''4532015112830366'') mod 10 = 0"
    by code_simp
  have c: "\<exists>c \<in> set ''4532x15112830366''. \<not> is_digit c \<and> \<not> is_space c"
    by code_simp
  have c': "CHR ''x'' \<in> set ''4532x15112830366'' \<and> \<not> is_digit CHR ''x'' \<and> \<not> is_space CHR ''x''"
    by code_simp
  have d: "cardNumberValid ''4111 1111 1111 1111''"
    by code_simp
  from a b c c' d
    isValidLuhn_checksum_on_digits [of "''4532015112830366''" "''4111 1111 1111 1111''"]
    isValidLuhn_checksum_on_digits [of "''4532x15112830366''" "''4111 1111 1111 1111''"]
  show ?thesis by blast
qed

text \<open>
  Claim C9. The Luhn check accepts the empty string (the empty sum is 0). This never
  makes a card number valid: validity also requires the digit string to match
  \<open>^\d{12,19}$\<close>, so an input with fewer than 12 digits is invalid.
\<close>

theorem luhn_empty_true_but_short_input_invalid:
  "isValidLuhn ''''
   \<and> (\<not> matches_d12_19 (cardDigits s) \<longrightarrow> \<not> cardNumberValid s)
   \<and> (length (filter is_digit s) < 12 \<longrightarrow> \<not> cardNumberValid s)"
proof -
  have e: "isValidLuhn ''''"
    by (simp add: isValidLuhn_def)
  have g: "\<not> matches_d12_19 (cardDigits s) \<longrightarrow> \<not> cardNumberValid s"
    by (simp add: cardNumberValid_def Let_def)
  have "filter is_digit (cardDigits s) = filter is_digit s"
    unfolding cardDigits_def by (induction s) (auto simp: digit_not_space)
  moreover have "matches_d12_19 (cardDigits s) \<Longrightarrow>
      filter is_digit (cardDigits s) = cardDigits s \<and> 12 \<le> length (cardDigits s)"
    by (simp add: matches_d12_19_def list_all_iff)
  ultimately have "matches_d12_19 (cardDigits s) \<Longrightarrow> 12 \<le> length (filter is_digit s)"
    by metis
  with e g show ?thesis
    by (auto simp: cardNumberValid_def Let_def)
qed

theorem luhn_empty_true_but_short_input_invalid_witness:
  "isValidLuhn ''''
   \<and> \<not> matches_d12_19 (cardDigits ''4111 1111 111'')
   \<and> length (filter is_digit ''4111 1111 111'') < 12
   \<and> \<not> cardNumberValid ''4111 1111 111''"
proof -
  have a: "\<not> matches_d12_19 (cardDigits ''4111 1111 111'')"
    by code_simp
  have b: "length (filter is_digit ''4111 1111 111'') < 12"
    by code_simp
  from luhn_empty_true_but_short_input_invalid [of "''4111 1111 111''"] a b
  show ?thesis by simp
qed

section \<open>Properties of the card submission\<close>

lemma requests_resetCardAuthFlow [simp]: "requests (resetCardAuthFlow st) = requests st"
  by (simp add: resetCardAuthFlow_def clearCardRedirectTimers_def)

lemma submit_card_posts:
  assumes "cardNumberValid (cardNumber st)" and "isValidExpiry now (expiry st)"
    and "length (pin st) = 4"
    and "submit_response Card (unwrap data)
           ((resetCardAuthFlow (st\<lparr>overlay := True, errorMsg := JNull, successMsg := JNull\<rparr>))
              \<lparr>requests := requests st @ [''/pay'']\<rparr>) = Inr st'"
  shows "submit now Card (Inr data) st = st'\<lparr>overlay := False\<rparr>"
  using assms by (simp add: submit_def Let_def)

lemma submit_response_card_pending:
  assumes "nextAction_of plain = Inr nextAction"
    and "nextAction \<noteq> ''otp''" and "nextAction \<noteq> ''redirect''"
    and "rawStatus_of plain = Inr ''pending''"
  shows "submit_response Card plain st =
           Inr (st\<lparr>errorMsg := or_else (get_prop (Some plain) ''message'')
                                        (JStr ''Card payment response received.'')\<rparr>)"
  using assms by (simp add: submit_response_def Let_def is_success_status_def)

lemma submit_response_card_other_shape:
  assumes "nextAction_of plain = Inr nextAction"
    and "nextAction \<noteq> ''otp''" and "nextAction \<noteq> ''redirect''"
    and "rawStatus_of plain = Inr rawStatus"
    and "\<not> is_success_status rawStatus" and "rawStatus \<noteq> ''pending''"
  shows "submit_response Card plain st =
           Inr (queueSuccessCallback plain (st\<lparr>successMsg := JStr ''Payment successful.''\<rparr>))"
  using assms by (simp add: submit_response_def Let_def)

lemma verifyCardOtp_response_other_shape:
  assumes "nextAction_of (unwrap data) = Inr nextAction"
    and "nextAction \<noteq> ''otp''" and "nextAction \<noteq> ''redirect''"
    and "rawStatus_of (unwrap data) = Inr rawStatus"
    and "\<not> is_success_status rawStatus" and "rawStatus \<noteq> ''pending''"
  shows "\<exists>m. verifyCardOtp_response data st = Inr (st\<lparr>errorMsg := m\<rparr>)"
  using assms by (auto simp: verifyCardOtp_response_def Let_def)

lemma submit_response_conversion_throws:
  assumes "rawStatus_of plain = Inl e"
  shows "submit_response Card plain st = Inl e"
  using assms by (simp add: submit_response_def Let_def)

lemma ready_widget_valid:
  "cardNumberValid (cardNumber ready_widget)"
  "isValidExpiry (2026, 10) (expiry ready_widget)"
  "length (pin ready_widget) = 4"
proof -
  have "cardNumberValid ''4111 1111 1111 1111''"
    by code_simp
  then show "cardNumberValid (cardNumber ready_widget)"
    by (simp add: ready_widget_def)
  show "isValidExpiry (2026, 10) (expiry ready_widget)"
    by (simp add: ready_widget_def isValidExpiry_def is_digit_def)
  show "length (pin ready_widget) = 4"
    by (simp add: ready_widget_def)
qed

lemma failed_response_shape:
  "unwrap failed_response = failed_response"
  "nextAction_of failed_response = Inr []"
  "rawStatus_of failed_response = Inr ''failed''"
  by (simp_all add: unwrap_def nextAction_of_def rawStatus_of_def failed_response_def
        get_prop_def nullish_def toLowerCase_def lower_char_def)

text \<open>
  Claim C1. A card response with status "pending" leaves the auth state where it is
  and shows the message (\<open>submit_response_card_pending\<close>). A response of any other
  shape is said to show the generic failure message, change no state and never
  schedule the success callback. The code has no branch for it: the card block ends
  without a return, and control reaches the lines after it, which show
  "Payment successful." and queue the success callback
  (\<open>submit_response_card_other_shape\<close>). For the response \<open>{status: "failed"}\<close> to a
  valid card form, the widget reports success and arms the callback with the failed
  payload. The same response to \<open>verifyCardOtp\<close> only sets the error message
  (\<open>verifyCardOtp_response_other_shape\<close>).
\<close>

theorem submit_card_failed_status_reports_success:
  "successMsg (submit (2026, 10) Card (Inr failed_response) ready_widget)
     = JStr ''Payment successful.''
   \<and> successCallbackTimerRef (submit (2026, 10) Card (Inr failed_response) ready_widget)
     = Some failed_response
   \<and> errorMsg (submit (2026, 10) Card (Inr failed_response) ready_widget) = JNull
   \<and> successCallbackTimerRef ready_widget = None"
proof -
  have shape: "[] \<noteq> ''otp''" "[] \<noteq> ''redirect''"
    "\<not> is_success_status ''failed''" "''failed'' \<noteq> ''pending''"
    by (simp_all add: is_success_status_def)
  note response =
    submit_response_card_other_shape
      [OF failed_response_shape(2) shape(1,2) failed_response_shape(3) shape(3,4)]
  have posted: "submit (2026, 10) Card (Inr failed_response) ready_widget =
      (queueSuccessCallback failed_response
         (((resetCardAuthFlow
              (ready_widget\<lparr>overlay := True, errorMsg := JNull, successMsg := JNull\<rparr>))
             \<lparr>requests := requests ready_widget @ [''/pay'']\<rparr>)
            \<lparr>successMsg := JStr ''Payment successful.''\<rparr>))
        \<lparr>overlay := False\<rparr>"
    by (rule submit_card_posts [OF ready_widget_valid])
       (simp only: failed_response_shape(1) response)
  have "successCallbackTimerRef ready_widget = None"
    by (simp add: ready_widget_def initial_widget_def)
  then show ?thesis
    by (simp add: posted queueSuccessCallback_def resetCardAuthFlow_def
          clearCardRedirectTimers_def)
qed

section \<open>Properties of the transfer verification\<close>

text \<open>
  Claim C4. When the transfer is already verified, or while the cooldown is positive,
  \<open>verifyTransfer\<close> does nothing: no request is posted and the whole state of the
  widget is as before.
\<close>

theorem verifyTransfer_noop_when_verified_or_cooling_down:
  "transferVerified st \<or> transferVerifyCooldownSec st > 0 \<Longrightarrow>
     verifyTransfer resp st = st \<and> requests (verifyTransfer resp st) = requests st"
  by (auto simp: verifyTransfer_def)

theorem verifyTransfer_noop_when_verified_or_cooling_down_witness:
  "transferVerified (ready_widget\<lparr>transferVerified := True\<rparr>)
   \<and> verifyTransfer (Inr confirmed_response) (ready_widget\<lparr>transferVerified := True\<rparr>)
       = ready_widget\<lparr>transferVerified := True\<rparr>
   \<and> transferVerifyCooldownSec (ready_widget\<lparr>transferVerifyCooldownSec := 60\<rparr>) > 0
   \<and> requests (verifyTransfer (Inr confirmed_response)
                 (ready_widget\<lparr>transferVerifyCooldownSec := 60\<rparr>))
       = requests (ready_widget\<lparr>transferVerifyCooldownSec := 60\<rparr>)"
proof -
  have a: "transferVerified (ready_widget\<lparr>transferVerified := True\<rparr>)"
    by simp
  have b: "transferVerifyCooldownSec (ready_widget\<lparr>transferVerifyCooldownSec := 60\<rparr>) > 0"
    by simp
  from a b
    verifyTransfer_noop_when_verified_or_cooling_down
      [of "ready_widget\<lparr>transferVerified := True\<rparr>" "Inr confirmed_response"]
    verifyTransfer_noop_when_verified_or_cooling_down
      [of "ready_widget\<lparr>transferVerifyCooldownSec := 60\<rparr>" "Inr confirmed_response"]
  show ?thesis by blast
qed

lemma transferVerified_resetCardAuthFlow [simp]:
  "transferVerified (resetCardAuthFlow st) = transferVerified st"
  by (simp add: resetCardAuthFlow_def clearCardRedirectTimers_def)

lemma transferVerified_startRedirectCountdown [simp]:
  "transferVerified (startRedirectCountdown u st) = transferVerified st"
  by (simp add: startRedirectCountdown_def clearCardRedirectTimers_def)

lemma transferVerified_showCardSuccessState [simp]:
  "transferVerified (showCardSuccessState p m st) = transferVerified st"
  by (simp add: showCardSuccessState_def clearCardRedirectTimers_def)

lemma transferVerified_queueSuccessCallback [simp]:
  "transferVerified (queueSuccessCallback p st) = transferVerified st"
  by (simp add: queueSuccessCallback_def)

lemma transferVerified_submit_response:
  "submit_response m p st = Inr st' \<Longrightarrow> transferVerified st' = transferVerified st"
  by (auto simp: submit_response_def Let_def split: sum.splits if_splits)

lemma transferVerified_submit:
  "transferVerified (submit now m r st) = transferVerified st"
  by (auto simp: submit_def Let_def dest!: transferVerified_submit_response split: sum.split)

lemma transferVerified_verifyCardOtp_response:
  "verifyCardOtp_response d st = Inr st' \<Longrightarrow> transferVerified st' = transferVerified st"
  by (auto simp: verifyCardOtp_response_def Let_def split: sum.splits if_splits)

lemma transferVerified_verifyCardOtp:
  "transferVerified (verifyCardOtp r st) = transferVerified st"
  by (auto simp: verifyCardOtp_def Let_def dest!: transferVerified_verifyCardOtp_response
        split: sum.split)

lemma transferVerified_verifyTransfer:
  "transferVerified st \<Longrightarrow> transferVerified (verifyTransfer r st)"
  by (simp add: verifyTransfer_def)

lemma transferVerified_selectTab:
  "transferVerified (selectTab t st) = transferVerified st"
  by (simp add: selectTab_def split: ActiveTab.split)

lemma transferVerified_timers:
  "transferVerified (cooldownTick st) = transferVerified st"
  "transferVerified (redirectCountdownTick st) = transferVerified st"
  "transferVerified (redirectTimerFires st) = transferVerified st"
  "transferVerified (successCallbackFires st) = transferVerified st"
  by (simp_all add: cooldownTick_def redirectCountdownTick_def redirectTimerFires_def
        successCallbackFires_def split: option.split)

lemma transferVerified_step:
  "\<not> is_ProceedBank ev \<Longrightarrow> transferVerified st \<Longrightarrow> transferVerified (step st ev)"
  by (cases ev)
     (simp_all add: transferVerified_submit transferVerified_verifyCardOtp
        transferVerified_verifyTransfer transferVerified_selectTab transferVerified_timers)

lemma transferVerified_run:
  "\<forall>ev \<in> set evs. \<not> is_ProceedBank ev \<Longrightarrow> transferVerified st \<Longrightarrow>
     transferVerified (run st evs)"
  unfolding run_def by (induction evs arbitrary: st) (simp_all add: transferVerified_step)

lemma transferVerified_proceedBank_response [simp]:
  "transferVerified (proceedBank_response d st) = transferVerified st"
  by (simp add: proceedBank_response_def Let_def split: option.split)

lemma proceedBank_resets:
  "truthy (Some (transactionId st)) \<Longrightarrow> \<not> transferVerified (proceedBank r st)"
  by (simp add: proceedBank_def Let_def split: sum.split)

text \<open>
  Claim C2, as stated: once \<open>transferVerified\<close> is true, no later operation
  (\<open>verifyTransfer\<close>, \<open>proceedBank\<close>, tab switch, timer tick) resets it. It fails on
  \<open>proceedBank\<close>, which sets the flag to false before it posts its request. The
  customer generates the account, confirms the transfer, clicks the transfer tab
  (back to step 1) and generates an account again: the flag is true after the second
  event and false after the fourth.
\<close>

theorem transferVerified_reset_by_proceedBank:
  "transferVerified
     (run ready_widget
        [ProceedBank (Inr bank_response), VerifyTransfer (Inr confirmed_response)])
   \<and> \<not> transferVerified
     (run ready_widget
        [ProceedBank (Inr bank_response), VerifyTransfer (Inr confirmed_response),
         SelectTab Transfer, ProceedBank (Inr bank_response)])"
  by code_simp

text \<open>
  Claim C2, amended. Over every sequence of events other than \<open>proceedBank\<close>
  (card submission, OTP verification, \<open>verifyTransfer\<close>, tab switches, timer ticks and
  timer expiries), \<open>transferVerified\<close> is monotonic: once true it stays true.
  \<open>proceedBank\<close> resets it to false whenever a transaction id is present, and leaves it
  as it is otherwise.
\<close>

theorem transferVerified_monotonic_without_proceedBank:
  "((\<forall>ev \<in> set evs. \<not> is_ProceedBank ev) \<and> transferVerified st
      \<longrightarrow> transferVerified (run st evs))
   \<and> (truthy (Some (transactionId st)) \<longrightarrow> \<not> transferVerified (proceedBank resp st))
   \<and> (\<not> truthy (Some (transactionId st))
      \<longrightarrow> transferVerified (proceedBank resp st) = transferVerified st)"
  by (simp add: transferVerified_run proceedBank_resets) (simp add: proceedBank_def)

theorem transferVerified_monotonic_without_proceedBank_witness:
  "transferVerified (ready_widget\<lparr>transferVerified := True\<rparr>)
   \<and> transferVerified
       (run (ready_widget\<lparr>transferVerified := True\<rparr>)
          [VerifyTransfer (Inr pending_response), SelectTab Transfer, CooldownTick,
           SelectTab Card, SuccessCallbackFires])
   \<and> truthy (Some (transactionId (ready_widget\<lparr>transferVerified := True\<rparr>)))
   \<and> \<not> transferVerified
       (proceedBank (Inr bank_response) (ready_widget\<lparr>transferVerified := True\<rparr>))
   \<and> \<not> truthy (Some (transactionId (initial_widget Transfer)))
   \<and> transferVerified (proceedBank (Inr bank_response) (initial_widget Transfer))
       = transferVerified (initial_widget Transfer)"
proof -
  have a: "\<forall>ev \<in> set [VerifyTransfer (Inr pending_response), SelectTab Transfer, CooldownTick,
                 SelectTab Card, SuccessCallbackFires]. \<not> is_ProceedBank ev"
    by simp
  have b: "transferVerified (ready_widget\<lparr>transferVerified := True\<rparr>)"
    by simp
  have c: "truthy (Some (transactionId (ready_widget\<lparr>transferVerified := True\<rparr>)))"
    by (simp add: ready_widget_def)
  have d: "\<not> truthy (Some (transactionId (initial_widget Transfer)))"
    by (simp add: initial_widget_def)
  from a b c d
    transferVerified_monotonic_without_proceedBank
      [of "[VerifyTransfer (Inr pending_response), SelectTab Transfer, CooldownTick,
            SelectTab Card, SuccessCallbackFires]"
          "ready_widget\<lparr>transferVerified := True\<rparr>" "Inr bank_response"]
    transferVerified_monotonic_without_proceedBank
      [of "[]" "initial_widget Transfer" "Inr bank_response"]
  show ?thesis by blast
qed

section \<open>Properties of initialization\<close>

lemma or_else_js_or: "or_else (js_or a b) d = or_else a (or_else b d)"
  by (cases a) (auto simp: js_or_def or_else_def)

lemma first_truthy_Cons: "first_truthy (x # xs) = or_else x (first_truthy xs)"
  by (cases x) (auto simp: or_else_def)

lemma or_else_None [simp]: "or_else None d = d"
  by (simp add: or_else_def)

lemma transaction_id_of_first_truthy:
  "transaction_id_of plain =
     first_truthy
       [get_prop (get_prop (Some plain) ''data'') ''transaction_id'',
        get_prop (get_prop (Some plain) ''data'') ''transactionId'',
        get_prop (Some plain) ''transaction_id'',
        get_prop (Some plain) ''transactionId'',
        get_prop (get_prop (Some plain) ''data'') ''id'',
        get_prop (Some plain) ''id'',
        get_prop (get_prop (Some plain) ''data'') ''reference'',
        get_prop (Some plain) ''reference'']"
  by (simp only: transaction_id_of_def or_else_js_or first_truthy_Cons first_truthy.simps(1))

lemma get_prop_None [simp]: "get_prop None k = None"
  by (simp add: get_prop_def)

text \<open>
  Claim C8, as stated: the transaction id is taken from the first field that is
  present among \<open>transaction_id\<close>, \<open>transactionId\<close>, \<open>id\<close>, \<open>reference\<close>. The code chains
  the candidates with \<open>||\<close>, so a field that is present with an empty (falsy) value is
  passed over, and it reads each name inside a nested \<open>data\<close> object too, where
  \<open>data.transactionId\<close> comes before the outer \<open>transaction_id\<close>.
\<close>

theorem transaction_id_not_first_present:
  "transaction_id_of (JObj [(''transaction_id'', JStr ''''), (''id'', JStr ''abc'')])
     = JStr ''abc''
   \<and> first_present_spec (JObj [(''transaction_id'', JStr ''''), (''id'', JStr ''abc'')])
        [''transaction_id'', ''transactionId'', ''id'', ''reference'']
     = JStr ''''
   \<and> transaction_id_of
        (JObj [(''transaction_id'', JStr ''T1''),
               (''data'', JObj [(''transactionId'', JStr ''T2'')])])
     = JStr ''T2''
   \<and> first_present_spec
        (JObj [(''transaction_id'', JStr ''T1''),
               (''data'', JObj [(''transactionId'', JStr ''T2'')])])
        [''transaction_id'', ''transactionId'', ''id'', ''reference'']
     = JStr ''T1''"
  by (simp add: transaction_id_of_first_truthy get_prop_def)

text \<open>
  Claim C8, amended. The stored transaction id is the first truthy value among
  \<open>data.transaction_id\<close>, \<open>data.transactionId\<close>, \<open>transaction_id\<close>, \<open>transactionId\<close>,
  \<open>data.id\<close>, \<open>id\<close>, \<open>data.reference\<close>, \<open>reference\<close> of the response, in this order;
  without a nested \<open>data\<close> object this is the order \<open>transaction_id\<close>, \<open>transactionId\<close>,
  \<open>id\<close>, \<open>reference\<close>. A mounted widget completes initialization in the success state
  whatever the fields are, and when all of them are absent the transaction id is null.
\<close>

theorem transaction_id_first_truthy_and_init_succeeds:
  "transaction_id_of plain =
     first_truthy
       [get_prop (get_prop (Some plain) ''data'') ''transaction_id'',
        get_prop (get_prop (Some plain) ''data'') ''transactionId'',
        get_prop (Some plain) ''transaction_id'',
        get_prop (Some plain) ''transactionId'',
        get_prop (get_prop (Some plain) ''data'') ''id'',
        get_prop (Some plain) ''id'',
        get_prop (get_prop (Some plain) ''data'') ''reference'',
        get_prop (Some plain) ''reference'']
   \<and> (get_prop (Some plain) ''data'' = None \<longrightarrow>
        transaction_id_of plain =
          first_truthy
            [get_prop (Some plain) ''transaction_id'', get_prop (Some plain) ''transactionId'',
             get_prop (Some plain) ''id'', get_prop (Some plain) ''reference''])
   \<and> init (initPayment_settled True (Inr data) st) = InitSuccess (unwrap data)
   \<and> transactionId (initPayment_settled True (Inr data) st) = transaction_id_of (unwrap data)
   \<and> ((\<forall>k \<in> set [''transaction_id'', ''transactionId'', ''id'', ''reference''].
          get_prop (Some (unwrap data)) k = None
          \<and> get_prop (get_prop (Some (unwrap data)) ''data'') k = None) \<longrightarrow>
        transactionId (initPayment_settled True (Inr data) st) = JNull)"
proof -
  have settled: "init (initPayment_settled True (Inr data) st) = InitSuccess (unwrap data)"
    "transactionId (initPayment_settled True (Inr data) st) = transaction_id_of (unwrap data)"
    by (simp_all add: initPayment_settled_def Let_def)
  have flat: "get_prop (Some plain) ''data'' = None \<longrightarrow>
        transaction_id_of plain =
          first_truthy
            [get_prop (Some plain) ''transaction_id'', get_prop (Some plain) ''transactionId'',
             get_prop (Some plain) ''id'', get_prop (Some plain) ''reference'']"
    by (simp add: transaction_id_of_first_truthy first_truthy_Cons del: first_truthy.simps(2))
  have absent: "(\<forall>k \<in> set [''transaction_id'', ''transactionId'', ''id'', ''reference''].
          get_prop (Some (unwrap data)) k = None
          \<and> get_prop (get_prop (Some (unwrap data)) ''data'') k = None) \<longrightarrow>
        transaction_id_of (unwrap data) = JNull"
    by (simp add: transaction_id_of_first_truthy)
  have absent': "(\<forall>k \<in> set [''transaction_id'', ''transactionId'', ''id'', ''reference''].
          get_prop (Some (unwrap data)) k = None
          \<and> get_prop (get_prop (Some (unwrap data)) ''data'') k = None) \<longrightarrow>
        transactionId (initPayment_settled True (Inr data) st) = JNull"
    using absent by (simp only: settled(2))
  show ?thesis
    by (intro conjI transaction_id_of_first_truthy settled flat absent')
qed

theorem transaction_id_first_truthy_and_init_succeeds_witness:
  "get_prop (Some (JObj [(''status'', JStr ''initialized'')])) ''data'' = None
   \<and> transaction_id_of (JObj [(''status'', JStr ''initialized'')])
       = first_truthy
           [get_prop (Some (JObj [(''status'', JStr ''initialized'')])) ''transaction_id'',
            get_prop (Some (JObj [(''status'', JStr ''initialized'')])) ''transactionId'',
            get_prop (Some (JObj [(''status'', JStr ''initialized'')])) ''id'',
            get_prop (Some (JObj [(''status'', JStr ''initialized'')])) ''reference'']
   \<and> transactionId
       (initPayment_settled True (Inr (JObj [(''status'', JStr ''initialized'')]))
          (initPayment_start (initial_widget Card))) = JNull
   \<and> init
       (initPayment_settled True (Inr (JObj [(''status'', JStr ''initialized'')]))
          (initPayment_start (initial_widget Card)))
     = InitSuccess (JObj [(''status'', JStr ''initialized'')])"
proof -
  have u: "unwrap (JObj [(''status'', JStr ''initialized'')])
             = JObj [(''status'', JStr ''initialized'')]"
    by (simp add: unwrap_def get_prop_def nullish_def)
  have a: "get_prop (Some (JObj [(''status'', JStr ''initialized'')])) ''data'' = None"
    by (simp add: get_prop_def)
  have b: "\<forall>k \<in> set [''transaction_id'', ''transactionId'', ''id'', ''reference''].
          get_prop (Some (unwrap (JObj [(''status'', JStr ''initialized'')]))) k = None
          \<and> get_prop (get_prop (Some (unwrap (JObj [(''status'', JStr ''initialized'')]))) ''data'') k
              = None"
    by (simp add: u get_prop_def)
  from a b u
    transaction_id_first_truthy_and_init_succeeds
      [of "JObj [(''status'', JStr ''initialized'')]" "JObj [(''status'', JStr ''initialized'')]"
          "initPayment_start (initial_widget Card)"]
  show ?thesis by simp
qed

section \<open>Properties of the request cache\<close>

text \<open>
  Claim C3. A request for a key that has an unsettled entry returns the stored promise
  and posts nothing. When a promise settles, its entry is removed if and only if the
  entry still holds this very promise, and settling twice removes nothing more. So two
  requests for a key before the first settles share one post, and a third one after
  it settled posts anew.
\<close>

theorem init_requests_deduplicated:
  "(entries c k = Some p \<longrightarrow> get_or_post k c = (p, c))
   \<and> (entries c k = Some p \<longrightarrow>
        entries (settled k p c) k = None \<and> posts (settled k p c) = posts c
        \<and> (\<forall>k'. k' \<noteq> k \<longrightarrow> entries (settled k p c) k' = entries c k'))
   \<and> (entries c k \<noteq> Some p \<longrightarrow> settled k p c = c)
   \<and> settled k p (settled k p c) = settled k p c
   \<and> (entries c k = None \<longrightarrow>
        fst (get_or_post k (snd (get_or_post k c))) = fst (get_or_post k c)
        \<and> posts (snd (get_or_post k (snd (get_or_post k c))))
            = posts c @ [(k, fst (get_or_post k c))]
        \<and> fst (get_or_post k
                 (settled k (fst (get_or_post k c))
                    (snd (get_or_post k (snd (get_or_post k c))))))
            \<noteq> fst (get_or_post k c)
        \<and> posts (snd (get_or_post k
                 (settled k (fst (get_or_post k c))
                    (snd (get_or_post k (snd (get_or_post k c)))))))
            = posts c @ [(k, fst (get_or_post k c)), (k, Suc (fst (get_or_post k c)))])"
  by (auto simp: get_or_post_def settled_def Let_def)

theorem init_requests_deduplicated_witness:
  "entries empty_cache ''sig'' = None
   \<and> fst (get_or_post ''sig'' empty_cache) = 0
   \<and> entries (snd (get_or_post ''sig'' empty_cache)) ''sig'' = Some 0
   \<and> get_or_post ''sig'' (snd (get_or_post ''sig'' empty_cache))
       = (0, snd (get_or_post ''sig'' empty_cache))
   \<and> posts (snd (get_or_post ''sig'' (snd (get_or_post ''sig'' empty_cache)))) = [(''sig'', 0)]
   \<and> entries (settled ''sig'' 0 (snd (get_or_post ''sig'' empty_cache))) ''sig'' = None
   \<and> entries (snd (get_or_post ''sig'' empty_cache)) ''sig'' \<noteq> Some 7
   \<and> settled ''sig'' 7 (snd (get_or_post ''sig'' empty_cache))
       = snd (get_or_post ''sig'' empty_cache)
   \<and> posts (snd (get_or_post ''sig''
               (settled ''sig'' 0
                  (snd (get_or_post ''sig'' (snd (get_or_post ''sig'' empty_cache)))))))
       = [(''sig'', 0), (''sig'', 1)]"
proof -
  have a: "entries empty_cache ''sig'' = None"
    by (simp add: empty_cache_def)
  have b: "fst (get_or_post ''sig'' empty_cache) = 0"
    by (simp add: get_or_post_def empty_cache_def Let_def)
  have c: "entries (snd (get_or_post ''sig'' empty_cache)) ''sig'' = Some 0"
    by (simp add: get_or_post_def empty_cache_def Let_def)
  have d: "posts empty_cache = []"
    by (simp add: empty_cache_def)
  from a b c d
    init_requests_deduplicated [of empty_cache "''sig''" 0]
    init_requests_deduplicated [of "snd (get_or_post ''sig'' empty_cache)" "''sig''" 0]
    init_requests_deduplicated [of "snd (get_or_post ''sig'' empty_cache)" "''sig''" 7]
  show ?thesis by simp
qed

section \<open>Properties of the serialization\<close>





lemma live_dropped:
  "live (map_of fs k) = live (map_of gs k) \<Longrightarrow>
     dropped (lookup fs k) = dropped (lookup gs k)"
  by (auto simp: live_def lookup_def dropped_def split: option.splits if_splits)






subsection \<open>Marks are never removed\<close>

lemma map_elems_seen_mono:
  assumes "\<forall>s x y s'. norm s x = Inr (y, s') \<longrightarrow> s \<subseteq> s'"
  shows "map_elems norm s xs = Inr (ys, s') \<Longrightarrow> s \<subseteq> s'"
proof (induction xs arbitrary: s ys)
  case Nil
  then show ?case by simp
next
  case (Cons x xs)
  from Cons.prems obtain y s1 ys1 where x: "norm s x = Inr (y, s1)"
    and rest: "map_elems norm s1 xs = Inr (ys1, s')"
    by (auto split: sum.splits)
  from assms x have "s \<subseteq> s1" by blast
  with Cons.IH [OF rest] show ?case by blast
qed

lemma reduce_keys_seen_mono:
  assumes "\<forall>s x y s'. norm s x = Inr (y, s') \<longrightarrow> s \<subseteq> s'"
  shows "reduce_keys norm fs s acc ks = Inr (acc', s') \<Longrightarrow> s \<subseteq> s'"
proof (induction ks arbitrary: s acc)
  case Nil
  then show ?case by simp
next
  case (Cons k ks)
  show ?case
  proof (cases "dropped (lookup fs k)")
    case True
    with Cons show ?thesis by simp
  next
    case False
    with Cons.prems obtain y s1 where x: "norm s (lookup fs k) = Inr (y, s1)"
      and rest: "reduce_keys norm fs s1 (assign acc k y) ks = Inr (acc', s')"
      by (auto simp: Let_def split: sum.splits)
    from assms x have "s \<subseteq> s1" by blast
    with Cons.IH [OF rest] show ?thesis by blast
  qed
qed

lemma normalize_seen_mono:
  "normalize_val d h seen v = Inr (n, seen') \<Longrightarrow> seen \<subseteq> seen'"
proof (induction d arbitrary: seen v n seen')
  case 0
  then show ?case by simp
next
  case (Suc d)
  have IH: "\<forall>s x y s'. normalize_val d h s x = Inr (y, s') \<longrightarrow> s \<subseteq> s'"
    using Suc.IH by blast
  show ?case
  proof (cases v)
    case (VRef a)
    show ?thesis
    proof (cases "h a")
      case (ObjCell fs)
      show ?thesis
      proof (cases "a \<in> seen")
        case True
        with Suc.prems VRef ObjCell show ?thesis by simp
      next
        case False
        with Suc.prems VRef ObjCell obtain acc where
          "reduce_keys (\<lambda>s x. normalize_val d h s x) fs (insert a seen) []
             (sort (Object_keys fs)) = Inr (acc, seen')"
          by (auto split: sum.splits)
        from reduce_keys_seen_mono [OF IH this] show ?thesis by blast
      qed
    next
      case (ArrCell xs)
      with Suc.prems VRef obtain ys where
        "map_elems (\<lambda>s x. normalize_val d h s x) seen xs = Inr (ys, seen')"
        by (auto split: sum.splits)
      from map_elems_seen_mono [OF IH this] show ?thesis .
    next
      case (DateCell t)
      with Suc.prems VRef show ?thesis by (auto split: option.splits)
    qed
  qed (use Suc.prems in auto)
qed

subsection \<open>The marks that a traversal leaves\<close>

lemma map_elems_marks:
  assumes "\<forall>s x y s'. norm s x = Inr (y, s') \<longrightarrow>
             s \<subseteq> s' \<and> (\<forall>b. meets h x b \<longrightarrow> b \<in> s') \<and> marks_closed h s s'"
  shows "map_elems norm s xs = Inr (ys, s') \<Longrightarrow>
           s \<subseteq> s' \<and> (\<forall>x \<in> set xs. \<forall>b. meets h x b \<longrightarrow> b \<in> s') \<and> marks_closed h s s'"
proof (induction xs arbitrary: s ys)
  case Nil
  then show ?case by (auto simp: marks_closed_def)
next
  case (Cons x xs)
  from Cons.prems obtain y s1 ys1 where x: "norm s x = Inr (y, s1)"
    and rest: "map_elems norm s1 xs = Inr (ys1, s')"
    by (auto split: sum.splits)
  from assms x have 1: "s \<subseteq> s1" "\<forall>b. meets h x b \<longrightarrow> b \<in> s1" "marks_closed h s s1"
    by blast+
  from Cons.IH [OF rest]
  have 2: "s1 \<subseteq> s'" "\<forall>x \<in> set xs. \<forall>b. meets h x b \<longrightarrow> b \<in> s'" "marks_closed h s1 s'"
    by blast+
  from 1 2 show ?case
    unfolding marks_closed_def by (simp add: subset_iff) blast
qed

lemma reduce_keys_marks:
  assumes "\<forall>s x y s'. norm s x = Inr (y, s') \<longrightarrow>
             s \<subseteq> s' \<and> (\<forall>b. meets h x b \<longrightarrow> b \<in> s') \<and> marks_closed h s s'"
  shows "reduce_keys norm fs s acc ks = Inr (acc', s') \<Longrightarrow>
           s \<subseteq> s'
           \<and> (\<forall>k \<in> set ks. \<not> dropped (lookup fs k) \<longrightarrow> (\<forall>b. meets h (lookup fs k) b \<longrightarrow> b \<in> s'))
           \<and> marks_closed h s s'"
proof (induction ks arbitrary: s acc)
  case Nil
  then show ?case by (auto simp: marks_closed_def)
next
  case (Cons k ks)
  show ?case
  proof (cases "dropped (lookup fs k)")
    case True
    with Cons show ?thesis by simp
  next
    case False
    with Cons.prems obtain y s1 where x: "norm s (lookup fs k) = Inr (y, s1)"
      and rest: "reduce_keys norm fs s1 (assign acc k y) ks = Inr (acc', s')"
      by (auto simp: Let_def split: sum.splits)
    from assms x have 1: "s \<subseteq> s1" "\<forall>b. meets h (lookup fs k) b \<longrightarrow> b \<in> s1"
      "marks_closed h s s1"
      by blast+
    from Cons.IH [OF rest]
    have 2: "s1 \<subseteq> s'"
      "\<forall>k \<in> set ks. \<not> dropped (lookup fs k) \<longrightarrow> (\<forall>b. meets h (lookup fs k) b \<longrightarrow> b \<in> s')"
      "marks_closed h s1 s'"
      by blast+
    from 1 2 show ?thesis
      unfolding marks_closed_def by (simp add: subset_iff) blast
  qed
qed

lemma meets_object_iff: "h a = ObjCell fs \<Longrightarrow> meets h (VRef a) b = (b = a)"
  by (subst meets.simps) auto

lemma meets_array_iff:
  "h a = ArrCell xs \<Longrightarrow> meets h (VRef a) b = (\<exists>x \<in> set xs. meets h x b)"
  by (subst meets.simps) auto

lemma meets_date: "h a = DateCell t \<Longrightarrow> \<not> meets h (VRef a) b"
  by (subst meets.simps) auto

lemma meets_primitive: "\<forall>a. v \<noteq> VRef a \<Longrightarrow> \<not> meets h v b"
  by (subst meets.simps) auto

lemma child_iff:
  "h c = ObjCell fs \<Longrightarrow>
     child h c b = (\<exists>k \<in> set (Object_keys fs). \<not> dropped (lookup fs k) \<and> meets h (lookup fs k) b)"
  by (auto simp: child_def)

lemma normalize_marks:
  "normalize_val d h seen v = Inr (n, seen') \<Longrightarrow>
     seen \<subseteq> seen' \<and> (\<forall>b. meets h v b \<longrightarrow> b \<in> seen') \<and> marks_closed h seen seen'"
proof (induction d arbitrary: seen v n seen')
  case 0
  then show ?case by simp
next
  case (Suc d)
  have IH: "\<forall>s x y s'. normalize_val d h s x = Inr (y, s') \<longrightarrow>
             s \<subseteq> s' \<and> (\<forall>b. meets h x b \<longrightarrow> b \<in> s') \<and> marks_closed h s s'"
    using Suc.IH by blast
  show ?case
  proof (cases "\<exists>a. v = VRef a")
    case False
    then have "normalize_val (Suc d) h seen v = Inr (prim v, seen)"
      by (cases v) simp_all
    with Suc.prems False show ?thesis
      by (auto simp: meets_primitive marks_closed_def simp del: normalize_val.simps)
  next
    case True
    then obtain a where VRef: "v = VRef a" ..
    show ?thesis
    proof (cases "h a")
      case (ObjCell fs)
      show ?thesis
      proof (cases "a \<in> seen")
        case True
        with Suc.prems VRef ObjCell show ?thesis
          by (auto simp: meets_object_iff marks_closed_def)
      next
        case False
        with Suc.prems VRef ObjCell obtain acc where
          "reduce_keys (\<lambda>s x. normalize_val d h s x) fs (insert a seen) []
             (sort (Object_keys fs)) = Inr (acc, seen')"
          by (auto split: sum.splits)
        from reduce_keys_marks [OF IH this]
        have 1: "insert a seen \<subseteq> seen'"
          and 2: "\<forall>k \<in> set (Object_keys fs). \<not> dropped (lookup fs k) \<longrightarrow>
                    (\<forall>b. meets h (lookup fs k) b \<longrightarrow> b \<in> seen')"
          and 3: "marks_closed h (insert a seen) seen'"
          by simp_all
        have "marks_closed h seen seen'"
          unfolding marks_closed_def
        proof (intro allI impI, elim conjE)
          fix c b
          assume c: "c \<in> seen'" "c \<notin> seen" and ch: "child h c b"
          show "b \<in> seen'"
          proof (cases "c = a")
            case True
            with ch ObjCell 2 show ?thesis
              by (auto simp: child_iff)
          next
            case False
            with c ch 3 show ?thesis
              unfolding marks_closed_def by blast
          qed
        qed
        with 1 ObjCell show ?thesis
          by (simp add: VRef meets_object_iff)
      qed
    next
      case (ArrCell xs)
      with Suc.prems VRef obtain ys where
        "map_elems (\<lambda>s x. normalize_val d h s x) seen xs = Inr (ys, seen')"
        by (auto split: sum.splits)
      from map_elems_marks [OF IH this] ArrCell show ?thesis
        by (auto simp: VRef meets_array_iff)
    next
      case (DateCell t)
      with Suc.prems VRef show ?thesis
        by (auto simp: meets_date marks_closed_def split: option.splits)
    qed
  qed
qed

lemma reaches_marked:
  assumes "normalize_val d h seen v = Inr (n, seen')"
  shows "reaches h seen v b \<Longrightarrow> b \<in> seen'"
proof (induction rule: reaches.induct)
  case (reaches_met b)
  with normalize_marks [OF assms] show ?case by blast
next
  case (reaches_child c b)
  with normalize_marks [OF assms] show ?case
    unfolding marks_closed_def by blast
qed

lemma meets_plain_object: "meets h v b \<Longrightarrow> \<exists>fs. h b = ObjCell fs"
  by (induction rule: meets.induct) auto

lemma reaches_plain_object: "reaches h seen v b \<Longrightarrow> \<exists>fs. h b = ObjCell fs"
  by (induction rule: reaches.induct) (auto simp: child_def dest: meets_plain_object)

lemma reaches_fewer_marks:
  "reaches h s1 v b \<Longrightarrow> s \<subseteq> s1 \<Longrightarrow> reaches h s v b"
  by (induction rule: reaches.induct) (auto intro: reaches.intros)

lemma reaches_from_element:
  "reaches h s x b \<Longrightarrow> h a = ArrCell xs \<Longrightarrow> x \<in> set xs \<Longrightarrow> reaches h s (VRef a) b"
  by (induction rule: reaches.induct) (auto intro: reaches.intros meets_element)

lemma reaches_from_property:
  assumes "h a = ObjCell fs" and "a \<notin> s" and "k \<in> set (Object_keys fs)"
    and "\<not> dropped (lookup fs k)"
  shows "reaches h (insert a s) (lookup fs k) b \<Longrightarrow> reaches h s (VRef a) b"
proof (induction rule: reaches.induct)
  case (reaches_met b)
  with assms have "child h a b"
    by (auto simp: child_iff)
  moreover have "reaches h s (VRef a) a"
    using assms(1) by (auto intro: reaches.reaches_met meets_object)
  ultimately show ?case
    using assms(2) by (auto intro: reaches.reaches_child)
next
  case (reaches_child c b)
  then show ?case by (auto intro: reaches.reaches_child)
qed

lemma map_elems_only_reached:
  assumes "\<forall>s x y s'. norm s x = Inr (y, s') \<longrightarrow> s \<subseteq> s' \<and> s' \<subseteq> s \<union> {b. reaches h s x b}"
  shows "map_elems norm s xs = Inr (ys, s') \<Longrightarrow>
           s' \<subseteq> s \<union> {b. \<exists>x \<in> set xs. reaches h s x b}"
proof (induction xs arbitrary: s ys)
  case Nil
  then show ?case by simp
next
  case (Cons x xs)
  from Cons.prems obtain y s1 ys1 where x: "norm s x = Inr (y, s1)"
    and rest: "map_elems norm s1 xs = Inr (ys1, s')"
    by (auto split: sum.splits)
  from assms x have 1: "s \<subseteq> s1" "s1 \<subseteq> s \<union> {b. reaches h s x b}"
    by blast+
  from Cons.IH [OF rest] have 2: "s' \<subseteq> s1 \<union> {b. \<exists>x \<in> set xs. reaches h s1 x b}" .
  show ?case
  proof
    fix b assume "b \<in> s'"
    with 2 consider "b \<in> s1" | x' where "x' \<in> set xs" "reaches h s1 x' b"
      by blast
    then show "b \<in> s \<union> {b. \<exists>x \<in> set (x # xs). reaches h s x b}"
    proof cases
      case 1
      with \<open>s1 \<subseteq> s \<union> {b. reaches h s x b}\<close> show ?thesis by auto
    next
      case 2
      with reaches_fewer_marks [OF _ \<open>s \<subseteq> s1\<close>] show ?thesis by auto
    qed
  qed
qed

lemma reduce_keys_only_reached:
  assumes "\<forall>s x y s'. norm s x = Inr (y, s') \<longrightarrow> s \<subseteq> s' \<and> s' \<subseteq> s \<union> {b. reaches h s x b}"
  shows "reduce_keys norm fs s acc ks = Inr (acc', s') \<Longrightarrow>
           s' \<subseteq> s \<union> {b. \<exists>k \<in> set ks. \<not> dropped (lookup fs k) \<and> reaches h s (lookup fs k) b}"
proof (induction ks arbitrary: s acc)
  case Nil
  then show ?case by simp
next
  case (Cons k ks)
  show ?case
  proof (cases "dropped (lookup fs k)")
    case True
    with Cons.prems have "reduce_keys norm fs s acc ks = Inr (acc', s')"
      by simp
    from Cons.IH [OF this] show ?thesis by auto
  next
    case False
    with Cons.prems obtain y s1 where x: "norm s (lookup fs k) = Inr (y, s1)"
      and rest: "reduce_keys norm fs s1 (assign acc k y) ks = Inr (acc', s')"
      by (auto simp: Let_def split: sum.splits)
    from assms x have 1: "s \<subseteq> s1" "s1 \<subseteq> s \<union> {b. reaches h s (lookup fs k) b}"
      by blast+
    from Cons.IH [OF rest]
    have 2: "s' \<subseteq> s1 \<union> {b. \<exists>k \<in> set ks. \<not> dropped (lookup fs k) \<and> reaches h s1 (lookup fs k) b}" .
    show ?thesis
    proof
      fix b assume "b \<in> s'"
      with 2 consider "b \<in> s1"
        | k' where "k' \<in> set ks" "\<not> dropped (lookup fs k')" "reaches h s1 (lookup fs k') b"
        by blast
      then show "b \<in> s \<union> {b. \<exists>k \<in> set (k # ks). \<not> dropped (lookup fs k) \<and> reaches h s (lookup fs k) b}"
      proof cases
        case 1
        with \<open>s1 \<subseteq> s \<union> {b. reaches h s (lookup fs k) b}\<close> False show ?thesis by auto
      next
        case 2
        with reaches_fewer_marks [OF _ \<open>s \<subseteq> s1\<close>] show ?thesis by auto
      qed
    qed
  qed
qed

lemma normalize_only_reached:
  "normalize_val d h seen v = Inr (n, seen') \<Longrightarrow> seen' \<subseteq> seen \<union> {b. reaches h seen v b}"
proof (induction d arbitrary: seen v n seen')
  case 0
  then show ?case by simp
next
  case (Suc d)
  have IH: "\<forall>s x y s'. normalize_val d h s x = Inr (y, s') \<longrightarrow>
              s \<subseteq> s' \<and> s' \<subseteq> s \<union> {b. reaches h s x b}"
  proof (intro allI impI conjI)
    fix s x y s' assume r: "normalize_val d h s x = Inr (y, s')"
    show "s \<subseteq> s'"
      by (rule normalize_seen_mono [OF r])
    show "s' \<subseteq> s \<union> {b. reaches h s x b}"
      by (rule Suc.IH [OF r])
  qed
  show ?case
  proof (cases "\<exists>a. v = VRef a")
    case False
    then have "normalize_val (Suc d) h seen v = Inr (prim v, seen)"
      by (cases v) simp_all
    with Suc.prems show ?thesis by simp
  next
    case True
    then obtain a where VRef: "v = VRef a" ..
    show ?thesis
    proof (cases "h a")
      case (ObjCell fs)
      show ?thesis
      proof (cases "a \<in> seen")
        case True
        with Suc.prems VRef ObjCell show ?thesis by simp
      next
        case False
        with Suc.prems VRef ObjCell obtain acc where
          "reduce_keys (\<lambda>s x. normalize_val d h s x) fs (insert a seen) []
             (sort (Object_keys fs)) = Inr (acc, seen')"
          by (auto split: sum.splits)
        from reduce_keys_only_reached [OF IH this]
        have sub: "seen' \<subseteq> insert a seen
                     \<union> {b. \<exists>k \<in> set (Object_keys fs). \<not> dropped (lookup fs k)
                              \<and> reaches h (insert a seen) (lookup fs k) b}"
          by simp
        have self: "reaches h seen (VRef a) a"
          using ObjCell by (auto intro: reaches.reaches_met meets_object)
        show ?thesis
          unfolding VRef
        proof
          fix b assume "b \<in> seen'"
          with sub consider "b = a" | "b \<in> seen"
            | k where "k \<in> set (Object_keys fs)" "\<not> dropped (lookup fs k)"
                "reaches h (insert a seen) (lookup fs k) b"
            by blast
          then show "b \<in> seen \<union> {b. reaches h seen (VRef a) b}"
          proof cases
            case 1
            with self show ?thesis by simp
          next
            case 2
            then show ?thesis by simp
          next
            case 3
            from reaches_from_property [OF ObjCell False 3(1,2) 3(3)] show ?thesis by simp
          qed
        qed
      qed
    next
      case (ArrCell xs)
      with Suc.prems VRef obtain ys where
        "map_elems (\<lambda>s x. normalize_val d h s x) seen xs = Inr (ys, seen')"
        by (auto split: sum.splits)
      from map_elems_only_reached [OF IH this]
      have sub: "seen' \<subseteq> seen \<union> {b. \<exists>x \<in> set xs. reaches h seen x b}" .
      show ?thesis
        unfolding VRef
      proof
        fix b assume "b \<in> seen'"
        with sub consider "b \<in> seen" | x where "x \<in> set xs" "reaches h seen x b"
          by blast
        then show "b \<in> seen \<union> {b. reaches h seen (VRef a) b}"
        proof cases
          case 1
          then show ?thesis by simp
        next
          case 2
          from reaches_from_element [OF 2(2) ArrCell 2(1)] show ?thesis by simp
        qed
      qed
    next
      case (DateCell t)
      with Suc.prems VRef show ?thesis by (auto split: option.splits)
    qed
  qed
qed

lemma normalize_marks_exactly:
  assumes "normalize_val d h seen v = Inr (n, seen')"
  shows "seen' = seen \<union> {b. reaches h seen v b}"
proof (intro equalityI subsetI)
  fix b assume "b \<in> seen'"
  with normalize_only_reached [OF assms] show "b \<in> seen \<union> {b. reaches h seen v b}"
    by (rule subsetD)
next
  fix b assume "b \<in> seen \<union> {b. reaches h seen v b}"
  then show "b \<in> seen'"
    using normalize_seen_mono [OF assms] reaches_marked [OF assms] by auto
qed

subsection \<open>More stack does not change a result\<close>

lemma map_elems_more_stack:
  assumes "\<forall>s x r. norm s x = r \<and> r \<noteq> Inl StackOverflow \<longrightarrow> norm' s x = r"
  shows "map_elems norm s xs = r \<Longrightarrow> r \<noteq> Inl StackOverflow \<Longrightarrow> map_elems norm' s xs = r"
proof (induction xs arbitrary: s r)
  case Nil
  then show ?case by simp
next
  case (Cons x xs)
  show ?case
  proof (cases "norm s x")
    case (Inl e)
    with Cons.prems have "e \<noteq> StackOverflow" and r: "r = Inl e" by auto
    with Inl assms have "norm' s x = Inl e" by blast
    with r show ?thesis by simp
  next
    case (Inr p)
    obtain y s1 where p: "p = (y, s1)" by (cases p)
    from Inr p assms have x': "norm' s x = Inr (y, s1)" by blast
    have "map_elems norm s1 xs \<noteq> Inl StackOverflow"
      using Cons.prems Inr p by (auto split: sum.splits)
    from Cons.IH [OF refl this] have "map_elems norm' s1 xs = map_elems norm s1 xs" .
    with Cons.prems Inr p x' show ?thesis by simp
  qed
qed

lemma reduce_keys_more_stack:
  assumes "\<forall>s x r. norm s x = r \<and> r \<noteq> Inl StackOverflow \<longrightarrow> norm' s x = r"
  shows "reduce_keys norm fs s acc ks = r \<Longrightarrow> r \<noteq> Inl StackOverflow \<Longrightarrow>
           reduce_keys norm' fs s acc ks = r"
proof (induction ks arbitrary: s acc r)
  case Nil
  then show ?case by simp
next
  case (Cons k ks)
  show ?case
  proof (cases "dropped (lookup fs k)")
    case True
    with Cons show ?thesis by simp
  next
    case False
    show ?thesis
    proof (cases "norm s (lookup fs k)")
      case (Inl e)
      with Cons.prems False have "e \<noteq> StackOverflow" and r: "r = Inl e"
        by (auto simp: Let_def)
      with Inl assms have "norm' s (lookup fs k) = Inl e" by blast
      with r False show ?thesis by (simp add: Let_def)
    next
      case (Inr p)
      obtain y s1 where p: "p = (y, s1)" by (cases p)
      from Inr p assms have x': "norm' s (lookup fs k) = Inr (y, s1)" by blast
      have "reduce_keys norm fs s1 (assign acc k y) ks = r"
        using Cons.prems False Inr p by (simp add: Let_def)
      from Cons.IH [OF this Cons.prems(2)] x' False show ?thesis
        by (simp add: Let_def)
    qed
  qed
qed

lemma normalize_val_object:
  "h a = ObjCell fs \<Longrightarrow> a \<notin> seen \<Longrightarrow>
     normalize_val (Suc d) h seen (VRef a) =
       (case reduce_keys (\<lambda>s x. normalize_val d h s x) fs (insert a seen) []
               (sort (Object_keys fs)) of
          Inl e \<Rightarrow> Inl e
        | Inr (acc, seen') \<Rightarrow> Inr (NObj (own_keys_order acc), seen'))"
  by simp

lemma normalize_val_array:
  "h a = ArrCell xs \<Longrightarrow>
     normalize_val (Suc d) h seen (VRef a) =
       (case map_elems (\<lambda>s x. normalize_val d h s x) seen xs of
          Inl e \<Rightarrow> Inl e
        | Inr (ys, seen') \<Rightarrow> Inr (NArr ys, seen'))"
  by simp

lemma normalize_val_marked:
  "h a = ObjCell fs \<Longrightarrow> a \<in> seen \<Longrightarrow>
     normalize_val (Suc d) h seen (VRef a) = Inr (NStr ''[Circular]'', seen)"
  by simp

lemma normalize_more_stack_Suc:
  "normalize_val d h seen v = r \<Longrightarrow> r \<noteq> Inl StackOverflow \<Longrightarrow>
     normalize_val (Suc d) h seen v = r"
proof (induction d arbitrary: seen v r)
  case 0
  then show ?case by simp
next
  case (Suc d)
  have IH: "\<forall>s x r. normalize_val d h s x = r \<and> r \<noteq> Inl StackOverflow \<longrightarrow>
              normalize_val (Suc d) h s x = r"
    using Suc.IH by blast
  show ?case
  proof (cases v)
    case (VRef a)
    show ?thesis
    proof (cases "h a")
      case (ObjCell fs)
      show ?thesis
      proof (cases "a \<in> seen")
        case True
        from Suc.prems(1) show ?thesis
          unfolding VRef normalize_val_marked [where h = h and a = a, OF ObjCell True] .
      next
        case False
        let ?red = "\<lambda>d. reduce_keys (\<lambda>s x. normalize_val d h s x) fs (insert a seen) []
                          (sort (Object_keys fs))"
        have "?red d \<noteq> Inl StackOverflow"
          using Suc.prems unfolding VRef normalize_val_object [where h = h and a = a, OF ObjCell False]
          by (auto split: sum.splits)
        from reduce_keys_more_stack [OF IH refl this] have eq: "?red (Suc d) = ?red d" .
        from Suc.prems(1) show ?thesis
          unfolding VRef normalize_val_object [where h = h and a = a, OF ObjCell False] eq .
      qed
    next
      case (ArrCell xs)
      let ?m = "\<lambda>d. map_elems (\<lambda>s x. normalize_val d h s x) seen xs"
      have "?m d \<noteq> Inl StackOverflow"
        using Suc.prems unfolding VRef normalize_val_array [where h = h and a = a, OF ArrCell]
        by (auto split: sum.splits)
      from map_elems_more_stack [OF IH refl this] have eq: "?m (Suc d) = ?m d" .
      from Suc.prems(1) show ?thesis
        unfolding VRef normalize_val_array [where h = h and a = a, OF ArrCell] eq .
    next
      case (DateCell t)
      with Suc.prems VRef show ?thesis by simp
    qed
  qed (use Suc.prems in auto)
qed

lemma normalize_more_stack:
  assumes "normalize_val d h seen v = r" and "r \<noteq> Inl StackOverflow" and "d \<le> d'"
  shows "normalize_val d' h seen v = r"
  using assms(3)
proof (induction d' rule: dec_induct)
  case base
  show ?case by (rule assms(1))
next
  case (step n)
  from normalize_more_stack_Suc [OF step.IH assms(2)] show ?case .
qed

lemma settlesI:
  assumes "r \<noteq> Inl StackOverflow" and "\<And>d. d0 \<le> d \<Longrightarrow> normalize_val (Suc d) h seen v = r"
  shows "settles h seen v"
proof -
  have "normalize_val d h seen v = r" if "Suc d0 \<le> d" for d
    using that assms(2) [of "d - 1"] by (cases d) simp_all
  with assms(1) show ?thesis
    unfolding settles_def by blast
qed

lemma settlesD:
  assumes "settles h seen v"
  shows "\<exists>d0 r. r \<noteq> Inl StackOverflow \<and> (\<forall>d \<ge> d0. normalize_val d h seen v = r)
           \<and> (\<forall>n s'. r = Inr (n, s') \<longrightarrow> seen \<subseteq> s')"
proof -
  from assms obtain d0 r where r: "r \<noteq> Inl StackOverflow"
    and all: "\<forall>d \<ge> d0. normalize_val d h seen v = r"
    unfolding settles_def by blast
  have "seen \<subseteq> s'" if "r = Inr (n, s')" for n s'
    using all that normalize_seen_mono [of d0 h seen v n s'] by simp
  with r all show ?thesis by blast
qed
lemma settles_iff:
  "settles h seen v = (\<exists>d. normalize_val d h seen v \<noteq> Inl StackOverflow)"
proof
  assume "settles h seen v"
  then show "\<exists>d. normalize_val d h seen v \<noteq> Inl StackOverflow"
    unfolding settles_def by (metis order_refl)
next
  assume "\<exists>d. normalize_val d h seen v \<noteq> Inl StackOverflow"
  then obtain d where "normalize_val d h seen v \<noteq> Inl StackOverflow" ..
  with normalize_more_stack [OF refl this] show "settles h seen v"
    unfolding settles_def by blast
qed

subsection \<open>The traversal comes to an end\<close>

lemma map_elems_settles:
  assumes "\<forall>x s. x \<in> set xs \<and> seen \<subseteq> s \<longrightarrow> settles h s x"
  shows "\<exists>d0 r. r \<noteq> Inl StackOverflow
           \<and> (\<forall>d \<ge> d0. map_elems (\<lambda>s x. normalize_val d h s x) seen xs = r)"
  using assms
proof (induction xs arbitrary: seen)
  case Nil
  have "\<forall>d \<ge> 0. map_elems (\<lambda>s x. normalize_val d h s x) seen [] = Inr ([], seen)"
    by simp
  then show ?case by blast
next
  case (Cons x xs)
  from Cons.prems have "settles h seen x" by simp
  from settlesD [OF this] obtain d1 r1 where r1: "r1 \<noteq> Inl StackOverflow"
    and n1: "\<forall>d \<ge> d1. normalize_val d h seen x = r1"
    and m1: "\<forall>n s'. r1 = Inr (n, s') \<longrightarrow> seen \<subseteq> s'"
    by blast
  show ?case
  proof (cases r1)
    case (Inl e)
    with n1 have "\<forall>d \<ge> d1. map_elems (\<lambda>s x. normalize_val d h s x) seen (x # xs) = Inl e"
      by simp
    with r1 Inl show ?thesis by blast
  next
    case (Inr p)
    obtain y s1 where p: "p = (y, s1)" by (cases p)
    from m1 Inr p have "seen \<subseteq> s1" by simp
    with Cons.prems have "\<forall>x' s. x' \<in> set xs \<and> s1 \<subseteq> s \<longrightarrow> settles h s x'"
      by auto
    from Cons.IH [OF this] obtain d2 r2 where r2: "r2 \<noteq> Inl StackOverflow"
      and n2: "\<forall>d \<ge> d2. map_elems (\<lambda>s x. normalize_val d h s x) s1 xs = r2"
      by blast
    let ?r = "case r2 of Inl e \<Rightarrow> Inl e | Inr (ys, s2) \<Rightarrow> Inr (y # ys, s2)"
    have "?r \<noteq> Inl StackOverflow"
      using r2 by (auto split: sum.splits)
    moreover have "\<forall>d \<ge> max d1 d2. map_elems (\<lambda>s x. normalize_val d h s x) seen (x # xs) = ?r"
      using n1 n2 Inr p by simp
    ultimately show ?thesis by blast
  qed
qed

lemma reduce_keys_settles:
  assumes "\<forall>k s. k \<in> set ks \<and> seen \<subseteq> s \<longrightarrow> settles h s (lookup fs k)"
  shows "\<exists>d0 r. r \<noteq> Inl StackOverflow
           \<and> (\<forall>d \<ge> d0. reduce_keys (\<lambda>s x. normalize_val d h s x) fs seen acc ks = r)"
  using assms
proof (induction ks arbitrary: seen acc)
  case Nil
  have "\<forall>d \<ge> 0. reduce_keys (\<lambda>s x. normalize_val d h s x) fs seen acc [] = Inr (acc, seen)"
    by simp
  then show ?case by blast
next
  case (Cons k ks)
  show ?case
  proof (cases "dropped (lookup fs k)")
    case True
    from Cons.prems have "\<forall>k' s. k' \<in> set ks \<and> seen \<subseteq> s \<longrightarrow> settles h s (lookup fs k')"
      by auto
    from Cons.IH [OF this, of acc] True show ?thesis by simp
  next
    case False
    from Cons.prems have "settles h seen (lookup fs k)" by simp
    from settlesD [OF this] obtain d1 r1 where r1: "r1 \<noteq> Inl StackOverflow"
      and n1: "\<forall>d \<ge> d1. normalize_val d h seen (lookup fs k) = r1"
      and m1: "\<forall>n s'. r1 = Inr (n, s') \<longrightarrow> seen \<subseteq> s'"
      by blast
    show ?thesis
    proof (cases r1)
      case (Inl e)
      with n1 False
      have "\<forall>d \<ge> d1. reduce_keys (\<lambda>s x. normalize_val d h s x) fs seen acc (k # ks) = Inl e"
        by (simp add: Let_def)
      with r1 Inl show ?thesis by blast
    next
      case (Inr p)
      obtain y s1 where p: "p = (y, s1)" by (cases p)
      from m1 Inr p have "seen \<subseteq> s1" by simp
      with Cons.prems have "\<forall>k' s. k' \<in> set ks \<and> s1 \<subseteq> s \<longrightarrow> settles h s (lookup fs k')"
        by auto
      from Cons.IH [OF this, of "assign acc k y"] obtain d2 r2 where
        r2: "r2 \<noteq> Inl StackOverflow"
        and n2: "\<forall>d \<ge> d2. reduce_keys (\<lambda>s x. normalize_val d h s x) fs s1 (assign acc k y) ks = r2"
        by blast
      have "\<forall>d \<ge> max d1 d2. reduce_keys (\<lambda>s x. normalize_val d h s x) fs seen acc (k # ks) = r2"
        using n1 n2 Inr p False by (simp add: Let_def)
      with r2 show ?thesis by blast
    qed
  qed
qed

lemma normalize_settles:
  assumes fin: "finite {a. \<exists>fs. h a = ObjCell fs \<and> fs \<noteq> []}"
    and rk: "\<forall>a xs b ys. h a = ArrCell xs \<and> VRef b \<in> set xs \<and> h b = ArrCell ys
               \<longrightarrow> rank b < (rank a :: nat)"
  shows "settles h seen v"
proof -
  define objs where "objs = {a. \<exists>fs. h a = ObjCell fs \<and> fs \<noteq> []}"
  define rkv where
    "rkv x = (case x of VRef a \<Rightarrow> (case h a of ArrCell xs \<Rightarrow> Suc (rank a) | _ \<Rightarrow> 0) | _ \<Rightarrow> 0)"
    for x
  define m where "m p = (card (objs - fst p), rkv (snd p))" for p :: "addr set \<times> jsval"
  have fin': "finite objs"
    using fin by (simp add: objs_def)
  have "wf (inv_image (less_than <*lex*> less_than) m)"
    by (intro wf_inv_image wf_lex_prod wf_less_than)
  then have "settles h (fst p) (snd p)" for p
  proof (induction p rule: wf_induct_rule)
    case (less p)
    obtain seen v where p: "p = (seen, v)" by (cases p)
    have IH: "settles h s x"
      if "card (objs - s) < card (objs - seen)
          \<or> (card (objs - s) = card (objs - seen) \<and> rkv x < rkv v)" for s x
      using less [of "(s, x)"] that by (auto simp: p m_def)
    have "settles h seen v"
    proof (cases v)
      case (VRef a)
      show ?thesis
      proof (cases "h a")
        case (ObjCell fs)
        show ?thesis
        proof (cases "a \<in> seen")
          case True
          have "normalize_val (Suc d) h seen v = Inr (NStr ''[Circular]'', seen)" for d
            by (simp add: VRef ObjCell True)
          then show ?thesis
            by (intro settlesI [where ?d0.0 = 0]) simp_all
        next
          case False
          have "settles h s (lookup fs k)"
            if "k \<in> set (sort (Object_keys fs))" and "insert a seen \<subseteq> s" for k s
          proof -
            from that(1) have "fs \<noteq> []"
              by (auto simp: Object_keys_def)
            with ObjCell have "a \<in> objs"
              by (simp add: objs_def)
            with False that(2) have "objs - s \<subset> objs - seen"
              by blast
            with fin' have "card (objs - s) < card (objs - seen)"
              by (intro psubset_card_mono) simp_all
            then show ?thesis by (intro IH) simp
          qed
          then have "\<forall>k s. k \<in> set (sort (Object_keys fs)) \<and> insert a seen \<subseteq> s
                       \<longrightarrow> settles h s (lookup fs k)"
            by blast
          from reduce_keys_settles [OF this, of "[]"] obtain d0 r0 where
            r0: "r0 \<noteq> Inl StackOverflow"
            and n0: "\<forall>d \<ge> d0. reduce_keys (\<lambda>s x. normalize_val d h s x) fs (insert a seen) []
                                  (sort (Object_keys fs)) = r0"
            by blast
          let ?r = "case r0 of Inl e \<Rightarrow> Inl e
                    | Inr (acc, s') \<Rightarrow> Inr (NObj (own_keys_order acc), s')"
          have "?r \<noteq> Inl StackOverflow"
            using r0 by (auto split: sum.splits)
          moreover have "normalize_val (Suc d) h seen v = ?r" if "d0 \<le> d" for d
            using n0 that
            by (simp add: VRef ObjCell False)
          ultimately show ?thesis
            by (rule settlesI)
        qed
      next
        case (ArrCell xs)
        have "settles h s x" if "x \<in> set xs" and "seen \<subseteq> s" for x s
        proof -
          from that(2) fin' have "card (objs - s) \<le> card (objs - seen)"
            by (intro card_mono) auto
          moreover have "rkv x < rkv v"
          proof (cases x)
            case (VRef b)
            show ?thesis
            proof (cases "h b")
              case inner: (ArrCell ys)
              with rk ArrCell that(1) VRef have "rank b < rank a"
                by blast
              with inner ArrCell VRef \<open>v = VRef a\<close> show ?thesis
                by (simp add: rkv_def)
            qed (simp_all add: rkv_def VRef ArrCell \<open>v = VRef a\<close>)
          qed (simp_all add: rkv_def ArrCell \<open>v = VRef a\<close>)
          ultimately show ?thesis
            by (intro IH) linarith
        qed
        then have "\<forall>x s. x \<in> set xs \<and> seen \<subseteq> s \<longrightarrow> settles h s x"
          by blast
        from map_elems_settles [OF this] obtain d0 r0 where
          r0: "r0 \<noteq> Inl StackOverflow"
          and n0: "\<forall>d \<ge> d0. map_elems (\<lambda>s x. normalize_val d h s x) seen xs = r0"
          by blast
        let ?r = "case r0 of Inl e \<Rightarrow> Inl e | Inr (ys, s') \<Rightarrow> Inr (NArr ys, s')"
        have "?r \<noteq> Inl StackOverflow"
          using r0 by (auto split: sum.splits)
        moreover have "normalize_val (Suc d) h seen v = ?r" if "d0 \<le> d" for d
          using n0 that
          by (simp add: VRef ArrCell)
        ultimately show ?thesis
          by (rule settlesI)
      next
        case (DateCell t)
        have "normalize_val (Suc d) h seen v
                = (case t of None \<Rightarrow> Inl InvalidDate | Some s \<Rightarrow> Inr (NStr s, seen))" for d
          by (simp add: VRef DateCell)
        moreover have "(case t of None \<Rightarrow> Inl InvalidDate | Some s \<Rightarrow> Inr (NStr s, seen))
                         \<noteq> Inl StackOverflow"
          by (simp split: option.split)
        ultimately show ?thesis
          by (intro settlesI [where ?d0.0 = 0]) simp_all
      qed
    qed (auto intro!: settlesI [where ?d0.0 = 0 and r = "Inr (prim v, seen)"])
    then show ?case by (simp add: p)
  qed
  from this [of "(seen, v)"] show ?thesis by simp
qed

subsection \<open>A second encounter in a later property or element\<close>

lemma marks_reach:
  assumes "\<forall>b. meets h x b \<longrightarrow> b \<in> s1" and "marks_closed h s s1"
  shows "reaches h s x b \<Longrightarrow> b \<in> s1"
proof (induction rule: reaches.induct)
  case (reaches_met b)
  with assms(1) show ?case by blast
next
  case (reaches_child c b)
  with assms(2) show ?case
    unfolding marks_closed_def by blast
qed

lemma reduce_keys_append:
  "reduce_keys norm fs s acc (ks1 @ ks2) =
     (case reduce_keys norm fs s acc ks1 of
        Inl e \<Rightarrow> Inl e
      | Inr (acc1, s1) \<Rightarrow> reduce_keys norm fs s1 acc1 ks2)"
  by (induction ks1 arbitrary: s acc) (auto simp: Let_def split: sum.splits)

lemma map_elems_append:
  "map_elems norm s (xs1 @ xs2) =
     (case map_elems norm s xs1 of
        Inl e \<Rightarrow> Inl e
      | Inr (ys1, s1) \<Rightarrow>
          (case map_elems norm s1 xs2 of
             Inl e \<Rightarrow> Inl e
           | Inr (ys2, s2) \<Rightarrow> Inr (ys1 @ ys2, s2)))"
  by (induction xs1 arbitrary: s) (auto split: sum.splits)

lemma map_elems_length:
  "map_elems norm s xs = Inr (ys, s') \<Longrightarrow> length ys = length xs"
  by (induction xs arbitrary: s ys) (auto split: sum.splits)

lemma set_prop_mem: "(k, v) \<in> set (set_prop ps k v)"
  by (induction ps) auto

lemma set_prop_other: "k' \<noteq> k \<Longrightarrow> (k', y) \<in> set ps \<Longrightarrow> (k', y) \<in> set (set_prop ps k v)"
  by (induction ps) auto

lemma set_prop_keys:
  "map fst (set_prop ps k v) = (if k \<in> set (map fst ps) then map fst ps else map fst ps @ [k])"
  by (induction ps) (auto simp del: set_map)

lemma set_prop_distinct:
  "distinct (map fst ps) \<Longrightarrow> distinct (map fst (set_prop ps k v))"
  by (simp add: set_prop_keys del: set_map)

lemma reduce_keys_keeps_entry:
  "reduce_keys norm fs s acc ks = Inr (acc', s') \<Longrightarrow> k \<notin> set ks \<Longrightarrow> (k, y) \<in> set acc \<Longrightarrow>
     (k, y) \<in> set acc'"
proof (induction ks arbitrary: s acc)
  case Nil
  then show ?case by simp
next
  case (Cons k' ks)
  show ?case
  proof (cases "dropped (lookup fs k')")
    case True
    with Cons show ?thesis by simp
  next
    case False
    with Cons.prems obtain z s1 where
      rest: "reduce_keys norm fs s1 (assign acc k' z) ks = Inr (acc', s')"
      by (auto simp: Let_def split: sum.splits)
    from Cons.prems have "(k, y) \<in> set (assign acc k' z)"
      by (auto simp: assign_def set_prop_other)
    with Cons.IH [OF rest] Cons.prems show ?thesis by simp
  qed
qed

lemma reduce_keys_distinct:
  "reduce_keys norm fs s acc ks = Inr (acc', s') \<Longrightarrow> distinct (map fst acc) \<Longrightarrow>
     distinct (map fst acc')"
proof (induction ks arbitrary: s acc)
  case Nil
  then show ?case by simp
next
  case (Cons k' ks)
  show ?case
  proof (cases "dropped (lookup fs k')")
    case True
    with Cons show ?thesis by simp
  next
    case False
    with Cons.prems obtain z s1 where
      rest: "reduce_keys norm fs s1 (assign acc k' z) ks = Inr (acc', s')"
      by (auto simp: Let_def split: sum.splits)
    from Cons.prems have "distinct (map fst (assign acc k' z))"
      by (simp add: assign_def set_prop_distinct)
    with Cons.IH [OF rest] show ?thesis by simp
  qed
qed

lemma own_keys_order_set: "set (own_keys_order ps) = set ps"
  by (auto simp: own_keys_order_def)

lemma own_keys_order_distinct:
  "distinct (map fst ps) \<Longrightarrow> distinct (map fst (own_keys_order ps))"
  by (auto simp: own_keys_order_def distinct_map inj_on_def)

lemma later_property_circular:
  assumes cell: "h a = ObjCell fs" and new: "a \<notin> seen"
    and res: "normalize_val (Suc d) h seen (VRef a) = Inr (n, seen')"
    and k1: "k1 \<in> set (Object_keys fs)" "\<not> dropped (lookup fs k1)"
    and reach: "reaches h (insert a seen) (lookup fs k1) b"
    and k2: "k1 < k2" "lookup fs k2 = VRef b" "k2 \<noteq> ''__proto__''"
  shows "\<exists>ps. n = NObj ps \<and> distinct (map fst ps) \<and> (k2, NStr ''[Circular]'') \<in> set ps"
proof -
  let ?norm = "\<lambda>s x. normalize_val d h s x"
  let ?ks = "sort (Object_keys fs)"
  have IH: "\<forall>s x y s'. ?norm s x = Inr (y, s') \<longrightarrow>
             s \<subseteq> s' \<and> (\<forall>b. meets h x b \<longrightarrow> b \<in> s') \<and> marks_closed h s s'"
    using normalize_marks by blast
  from res cell new obtain acc where
    red: "reduce_keys ?norm fs (insert a seen) [] ?ks = Inr (acc, seen')"
    and n: "n = NObj (own_keys_order acc)"
    by (auto split: sum.splits)
  from k2(2) have "map_of fs k2 = Some (VRef b)"
    by (auto simp: lookup_def split: option.splits)
  then have "k2 \<in> set ?ks"
    by (auto simp: Object_keys_def dest: map_of_SomeD intro: rev_image_eqI)
  from this [THEN split_list] obtain ks1 ks2 where ks: "?ks = ks1 @ k2 # ks2"
    by blast
  have "sorted ?ks" "distinct ?ks"
    by (simp_all add: Object_keys_def)
  then have order: "\<forall>k \<in> set ks2. k2 \<le> k" and out: "k2 \<notin> set ks2"
    unfolding ks by (auto simp: sorted_append)
  from k1(1) have "k1 \<in> set ?ks"
    by simp
  with order k2(1) have in1: "k1 \<in> set ks1"
    unfolding ks by auto
  from red obtain acc1 s1 where
    r1: "reduce_keys ?norm fs (insert a seen) [] ks1 = Inr (acc1, s1)"
    and r2: "reduce_keys ?norm fs s1 acc1 (k2 # ks2) = Inr (acc, seen')"
    unfolding ks reduce_keys_append by (auto split: sum.splits)
  from reduce_keys_marks [OF IH r1] in1 k1(2)
  have "\<forall>b. meets h (lookup fs k1) b \<longrightarrow> b \<in> s1" "marks_closed h (insert a seen) s1"
    by blast+
  from marks_reach [OF this reach] have marked: "b \<in> s1" .
  from reach obtain gs where plain: "h b = ObjCell gs"
    using reaches_plain_object by blast
  from r2 k2(2) obtain y s2 where
    call: "?norm s1 (VRef b) = Inr (y, s2)"
    and r3: "reduce_keys ?norm fs s2 (assign acc1 k2 y) ks2 = Inr (acc, seen')"
    by (auto simp: Let_def dropped_def split: sum.splits)
  from call marked plain have y: "y = NStr ''[Circular]''"
    by (cases d) auto
  have "(k2, y) \<in> set (assign acc1 k2 y)"
    using k2(3) by (simp add: assign_def set_prop_mem)
  from reduce_keys_keeps_entry [OF r3 out this] have "(k2, y) \<in> set acc" .
  moreover from reduce_keys_distinct [OF red] have "distinct (map fst acc)"
    by simp
  ultimately show ?thesis
    by (simp add: n y own_keys_order_set own_keys_order_distinct)
qed

lemma later_element_circular:
  assumes cell: "h a = ArrCell xs"
    and res: "normalize_val (Suc d) h seen (VRef a) = Inr (n, seen')"
    and ij: "i < j" "j < length xs"
    and reach: "reaches h seen (xs ! i) b" and again: "xs ! j = VRef b"
  shows "\<exists>ys. n = NArr ys \<and> length ys = length xs \<and> ys ! j = NStr ''[Circular]''"
proof -
  let ?norm = "\<lambda>s x. normalize_val d h s x"
  have IH: "\<forall>s x y s'. ?norm s x = Inr (y, s') \<longrightarrow>
             s \<subseteq> s' \<and> (\<forall>b. meets h x b \<longrightarrow> b \<in> s') \<and> marks_closed h s s'"
    using normalize_marks by blast
  from res cell obtain ys where
    red: "map_elems ?norm seen xs = Inr (ys, seen')" and n: "n = NArr ys"
    by (auto split: sum.splits)
  have xs: "xs = take j xs @ VRef b # drop (Suc j) xs"
    using ij(2) again id_take_nth_drop [of j xs] by simp
  from red obtain ys1 s1 y s2 ys2 where
    r1: "map_elems ?norm seen (take j xs) = Inr (ys1, s1)"
    and call: "?norm s1 (VRef b) = Inr (y, s2)"
    and r3: "map_elems ?norm s2 (drop (Suc j) xs) = Inr (ys2, seen')"
    and ys: "ys = ys1 @ y # ys2"
    by (subst (asm) xs) (auto simp: map_elems_append split: sum.splits)
  have "xs ! i \<in> set (take j xs)"
    using ij by (auto simp: in_set_conv_nth intro!: exI [of _ i])
  with map_elems_marks [OF IH r1]
  have "\<forall>b. meets h (xs ! i) b \<longrightarrow> b \<in> s1" "marks_closed h seen s1"
    by blast+
  from marks_reach [OF this reach] have marked: "b \<in> s1" .
  from reach obtain gs where plain: "h b = ObjCell gs"
    using reaches_plain_object by blast
  from call marked plain have y: "y = NStr ''[Circular]''"
    by (cases d) auto
  from map_elems_length [OF r1] ij(2) have "length ys1 = j"
    by simp
  then have "ys ! j = y"
    by (simp add: ys nth_append)
  with map_elems_length [OF red] show ?thesis
    by (simp add: n y)
qed

subsection \<open>The claims on serialization\<close>



lemma String_value_literal:
  "map_of fs ''toString'' = None \<Longrightarrow>
     String_value (h(lit := ObjCell fs)) (VRef lit) = Text ''[object Object]''"
  by (simp add: String_value_def)


lemma normalize_object_not_skipped:
  "normalize_val d h seen (VRef a) = Inr (n, seen') \<Longrightarrow> h a = ObjCell fs \<Longrightarrow> \<not> skipped n"
  by (cases d) (auto simp: skipped_def split: if_splits sum.splits)

lemma requestKey_is_text:
  "\<exists>t. requestKey d h lit baseURL publicKey payload = Text t"
proof -
  let ?fs = "[(''baseURL'', VStr baseURL), (''path'', VStr ''/initialize''),
              (''publicKey'', VStr publicKey), (''payload'', payload)]"
  let ?h = "h(lit := ObjCell ?fs)"
  have fallback: "String_value ?h (VRef lit) = Text ''[object Object]''"
    by (rule String_value_literal) simp
  show ?thesis
  proof (cases "normalize_val d ?h {} (VRef lit)")
    case (Inl e)
    then show ?thesis
      by (simp add: requestKey_def stableSerialize_def fallback)
  next
    case (Inr r)
    obtain n seen' where r: "r = (n, seen')"
      by (cases r)
    have "\<not> skipped n"
      using Inr by (intro normalize_object_not_skipped [where h = ?h and a = lit]) (simp_all add: r)
    then show ?thesis
      by (simp add: requestKey_def stableSerialize_def Inr r fallback JSON_stringify_def)
  qed
qed



lemma signature_examples_in_one_store:
  "requestKey 5 heap_ab_ba 0 ''https://gw'' ''pk_1'' (VRef 1)
     = requestKey 5 heap_ab_ba 0 ''https://gw'' ''pk_1'' (VRef 2)"
  by code_simp

lemma cyclic_array_exhausts_stack:
  "normalize_val d heap_cyclic_array seen (VRef 1) = Inl StackOverflow"
proof (induction d arbitrary: seen)
  case 0
  show ?case by simp
next
  case (Suc d)
  have "heap_cyclic_array 1 = ArrCell [VRef 1]"
    by (simp add: heap_cyclic_array_def)
  with Suc show ?case by simp
qed

lemma cyclic_array_payload_exhausts_stack:
  "normalize_val d heap_cyclic_array {} (VRef 0) = Inl StackOverflow"
proof (cases d)
  case 0
  then show ?thesis by simp
next
  case (Suc d')
  have "heap_cyclic_array 0 = ObjCell [(''a'', VRef 1)]"
    by (simp add: heap_cyclic_array_def)
  then show ?thesis
    by (simp add: Suc Object_keys_def lookup_def dropped_def Let_def
          cyclic_array_exhausts_stack del: One_nat_def)
qed

lemma cyclic_array_never_settles: "\<not> settles heap_cyclic_array seen (VRef 1)"
  unfolding settles_def using cyclic_array_exhausts_stack by blast

lemma unconvertible_exhausts_stack:
  "normalize_val d heap_unconvertible {} (VRef 0) = Inl StackOverflow"
proof (cases d)
  case 0
  then show ?thesis by simp
next
  case (Suc d')
  have inner: "normalize_val d' heap_unconvertible seen (VRef 1) = Inl StackOverflow" for d' seen
  proof (induction d' arbitrary: seen)
    case 0
    show ?case by simp
  next
    case (Suc d')
    have "heap_unconvertible 1 = ArrCell [VRef 1]"
      by (simp add: heap_unconvertible_def)
    with Suc show ?case by simp
  qed
  have "heap_unconvertible 0 = ObjCell [(''toString'', VNum ''1''), (''a'', VRef 1)]"
    by (simp add: heap_unconvertible_def)
  then show ?thesis
    by (simp add: Suc Object_keys_def lookup_def dropped_def Let_def inner del: One_nat_def)
qed

lemma unconvertible_throws:
  "stableSerialize d heap_unconvertible (VRef 0) = Throws TypeError"
  unfolding stableSerialize_def unconvertible_exhausts_stack
  by (simp add: String_value_def heap_unconvertible_def)

text \<open>
  Claim C10, as stated: any object reference met a second time in the traversal is
  replaced by \<open>"[Circular]"\<close>, and as a consequence serialization always terminates
  without throwing on any input. An array is an object too, and the code returns from
  \<open>normalize\<close> for an array before it looks at \<open>seen\<close>: the array of
  \<open>const xs = [1]; {a: xs, b: xs}\<close> is met twice and written out twice. An array that
  contains itself is met again and again until the stack is exhausted
  (\<open>cyclic_array_exhausts_stack\<close>), here at depth 50; the \<open>catch\<close> branch then returns
  \<open>String(value)\<close>, and this conversion throws a \<open>TypeError\<close> for the value
  \<open>{toString: 1, a: xs}\<close>, where \<open>xs\<close> contains itself (at every depth,
  \<open>unconvertible_throws\<close>).
\<close>

theorem shared_array_serialized_twice:
  "stableSerialize 5 heap_shared_array (VRef 0)
     = Text (''{'' @ quote ''a'' @ '':[1],'' @ quote ''b'' @ '':[1]}'')
   \<and> normalize_val 50 heap_cyclic_array {} (VRef 0) = Inl StackOverflow
   \<and> stableSerialize 50 heap_unconvertible (VRef 0) = Throws TypeError"
proof -
  have "stableSerialize 5 heap_shared_array (VRef 0)
     = Text (''{'' @ quote ''a'' @ '':[1],'' @ quote ''b'' @ '':[1]}'')"
    by code_simp
  moreover have "normalize_val 50 heap_cyclic_array {} (VRef 0) = Inl StackOverflow"
    by (rule cyclic_array_payload_exhausts_stack)
  ultimately show ?thesis
    by (simp add: unconvertible_throws)
qed

text \<open>
  Claim C10, amended. A plain object (neither an array nor a \<open>Date\<close>) that is met a
  second time in the traversal, shared substructure without a cycle included, is
  replaced by \<open>"[Circular]"\<close>: a plain object is marked when it is first visited and
  marks are never removed. A marked plain object is replaced when it is met; the
  marks that a traversal leaves are the marks it started with and exactly the plain
  objects it reached, at any depth below; so an object reached in one part of the
  traversal is replaced wherever it is met afterwards. In the result for an object, a
  property that refers to a plain object reached under a property with a smaller key
  holds the sentinel, and so does, in the result for an array, an element that
  refers to a plain object reached under an earlier element (the key \<open>__proto__\<close>
  apart, which is never a property of the result). The traversal comes to an end
  by itself on every store with finitely many objects in which no array contains
  itself through arrays only, and the request key of \<open>initPayment\<close> is a string for
  every payload at every depth of stack. Two payloads with the same structure get
  different signatures when one of them reaches the same plain object twice:
  \<open>const o = {}; {a: o, b: o}\<close> against \<open>{a: {}, b: {}}\<close>, and in
  \<open>{a: {x: o}, b: o}\<close> the object \<open>o\<close>, first reached two levels down, is replaced
  under \<open>b\<close>.
\<close>

theorem marked_plain_objects_become_circular:
  "(h a = ObjCell fs \<and> a \<in> seen \<longrightarrow>
      normalize_val (Suc d) h seen (VRef a) = Inr (NStr ''[Circular]'', seen))
   \<and> (normalize_val d h seen v = Inr (n, seen') \<longrightarrow>
        seen' = seen \<union> {b. reaches h seen v b})
   \<and> (normalize_val d h seen v = Inr (n, seen') \<and> reaches h seen v b \<and> seen' \<subseteq> later \<longrightarrow>
        normalize_val (Suc d') h later (VRef b) = Inr (NStr ''[Circular]'', later))
   \<and> (h a = ObjCell fs \<and> a \<notin> seen \<and> normalize_val (Suc d) h seen (VRef a) = Inr (n, seen')
        \<and> k \<in> set (Object_keys fs) \<and> \<not> dropped (lookup fs k)
        \<and> reaches h (insert a seen) (lookup fs k) b
        \<and> k < k' \<and> lookup fs k' = VRef b \<and> k' \<noteq> ''__proto__'' \<longrightarrow>
        (\<exists>ps. n = NObj ps \<and> distinct (map fst ps) \<and> (k', NStr ''[Circular]'') \<in> set ps))
   \<and> (h a = ArrCell xs \<and> normalize_val (Suc d) h seen (VRef a) = Inr (n, seen')
        \<and> i < j \<and> j < length xs \<and> reaches h seen (xs ! i) b \<and> xs ! j = VRef b \<longrightarrow>
        (\<exists>ys. n = NArr ys \<and> length ys = length xs \<and> ys ! j = NStr ''[Circular]''))
   \<and> (finite_objects h \<and> acyclic_arrays h \<longrightarrow> settles h seen v)
   \<and> (\<exists>t. requestKey d h lit baseURL publicKey payload = Text t)
   \<and> structure_of 5 heap_shared (VRef 0) = structure_of 5 heap_copies (VRef 0)
   \<and> stableSerialize 5 heap_shared (VRef 0)
       = Text (''{'' @ quote ''a'' @ '':{},'' @ quote ''b'' @ '':'' @ quote ''[Circular]'' @ ''}'')
   \<and> stableSerialize 5 heap_copies (VRef 0)
       = Text (''{'' @ quote ''a'' @ '':{},'' @ quote ''b'' @ '':{}}'')
   \<and> stableSerialize 5 heap_shared (VRef 0) \<noteq> stableSerialize 5 heap_copies (VRef 0)
   \<and> stableSerialize 5 heap_nested_shared (VRef 0)
       = Text (''{'' @ quote ''a'' @ '':{'' @ quote ''x'' @ '':{}},''
               @ quote ''b'' @ '':'' @ quote ''[Circular]'' @ ''}'')"
proof -
  have marked: "h a = ObjCell fs \<and> a \<in> seen \<longrightarrow>
      normalize_val (Suc d) h seen (VRef a) = Inr (NStr ''[Circular]'', seen)"
    by simp
  have marks: "normalize_val d h seen v = Inr (n, seen') \<longrightarrow>
        seen' = seen \<union> {b. reaches h seen v b}"
    using normalize_marks_exactly by blast
  have again: "normalize_val d h seen v = Inr (n, seen') \<and> reaches h seen v b \<and> seen' \<subseteq> later \<longrightarrow>
        normalize_val (Suc d') h later (VRef b) = Inr (NStr ''[Circular]'', later)"
  proof (intro impI, elim conjE)
    assume res: "normalize_val d h seen v = Inr (n, seen')" and r: "reaches h seen v b"
      and sub: "seen' \<subseteq> later"
    from reaches_marked [OF res r] sub have "b \<in> later"
      by blast
    moreover from r obtain gs where "h b = ObjCell gs"
        using reaches_plain_object by blast
    ultimately show "normalize_val (Suc d') h later (VRef b) = Inr (NStr ''[Circular]'', later)"
      by simp
  qed
  have property: "h a = ObjCell fs \<and> a \<notin> seen
        \<and> normalize_val (Suc d) h seen (VRef a) = Inr (n, seen')
        \<and> k \<in> set (Object_keys fs) \<and> \<not> dropped (lookup fs k)
        \<and> reaches h (insert a seen) (lookup fs k) b
        \<and> k < k' \<and> lookup fs k' = VRef b \<and> k' \<noteq> ''__proto__'' \<longrightarrow>
        (\<exists>ps. n = NObj ps \<and> distinct (map fst ps) \<and> (k', NStr ''[Circular]'') \<in> set ps)"
    using later_property_circular [where h = h and a = a and fs = fs and seen = seen]
    by blast
  have element: "h a = ArrCell xs \<and> normalize_val (Suc d) h seen (VRef a) = Inr (n, seen')
        \<and> i < j \<and> j < length xs \<and> reaches h seen (xs ! i) b \<and> xs ! j = VRef b \<longrightarrow>
        (\<exists>ys. n = NArr ys \<and> length ys = length xs \<and> ys ! j = NStr ''[Circular]'')"
    using later_element_circular [where h = h and a = a and xs = xs and seen = seen]
    by blast
  have ends: "finite_objects h \<and> acyclic_arrays h \<longrightarrow> settles h seen v"
    unfolding finite_objects_def acyclic_arrays_def
    using normalize_settles [of h _ seen v] by blast
  have same: "structure_of 5 heap_shared (VRef 0) = structure_of 5 heap_copies (VRef 0)"
    by code_simp
  have shared: "stableSerialize 5 heap_shared (VRef 0)
       = Text (''{'' @ quote ''a'' @ '':{},'' @ quote ''b'' @ '':'' @ quote ''[Circular]'' @ ''}'')"
    by code_simp
  have copies: "stableSerialize 5 heap_copies (VRef 0)
       = Text (''{'' @ quote ''a'' @ '':{},'' @ quote ''b'' @ '':{}}'')"
    by code_simp
  have differ: "stableSerialize 5 heap_shared (VRef 0) \<noteq> stableSerialize 5 heap_copies (VRef 0)"
    by code_simp
  have nested: "stableSerialize 5 heap_nested_shared (VRef 0)
       = Text (''{'' @ quote ''a'' @ '':{'' @ quote ''x'' @ '':{}},''
               @ quote ''b'' @ '':'' @ quote ''[Circular]'' @ ''}'')"
    by code_simp
  from marked marks again property element ends requestKey_is_text same shared copies
    differ nested
  show ?thesis
    by (intro conjI)
qed

lemma finite_objects_cycle: "finite_objects heap_object_array_cycle"
proof -
  have "{a. \<exists>fs. heap_object_array_cycle a = ObjCell fs \<and> fs \<noteq> []} \<subseteq> {0}"
    by (auto simp: heap_object_array_cycle_def empty_heap_def split: if_splits)
  then show ?thesis
    unfolding finite_objects_def by (rule finite_subset) simp
qed

lemma acyclic_arrays_cycle: "acyclic_arrays heap_object_array_cycle"
  unfolding acyclic_arrays_def
  by (rule exI [of _ "\<lambda>a. if a = 1 then 1 else 0"])
     (auto simp: heap_object_array_cycle_def empty_heap_def split: if_splits)

lemma nested_shared_reaches: "reaches heap_nested_shared {0} (VRef 2) 1"
proof -
  have two: "heap_nested_shared 2 = ObjCell [(''x'', VRef 1)]"
    and one: "heap_nested_shared 1 = ObjCell []"
    by (simp_all add: heap_nested_shared_def empty_heap_def)
  from two have "reaches heap_nested_shared {0} (VRef 2) 2"
    by (auto intro: reaches_met meets_object)
  moreover have "child heap_nested_shared 2 1"
    using one two by (auto simp: child_def Object_keys_def lookup_def dropped_def
        intro: meets_object)
  ultimately show ?thesis
    by (auto intro: reaches_child)
qed

theorem marked_plain_objects_become_circular_witness:
  "heap_cyclic_object 0 = ObjCell [(''self'', VRef 0)]
   \<and> normalize_val (Suc 0) heap_cyclic_object {0} (VRef 0) = Inr (NStr ''[Circular]'', {0})
   \<and> normalize_val 2 heap_cyclic_object {7} (VRef 0)
       = Inr (NObj [(''self'', NStr ''[Circular]'')], {0, 7})
   \<and> {0, 7} = {7} \<union> {b. reaches heap_cyclic_object {7} (VRef 0) b}
   \<and> normalize_val 3 heap_nested_shared {0} (VRef 2)
       = Inr (NObj [(''x'', NObj [])], {0, 1, 2})
   \<and> reaches heap_nested_shared {0} (VRef 2) 1
   \<and> normalize_val (Suc 0) heap_nested_shared {0, 1, 2} (VRef 1)
       = Inr (NStr ''[Circular]'', {0, 1, 2})
   \<and> normalize_val 4 heap_nested_shared {} (VRef 0)
       = Inr (NObj [(''a'', NObj [(''x'', NObj [])]), (''b'', NStr ''[Circular]'')], {0, 1, 2})
   \<and> (\<exists>ps. NObj [(''a'', NObj [(''x'', NObj [])]), (''b'', NStr ''[Circular]'')] = NObj ps
          \<and> distinct (map fst ps) \<and> (''b'', NStr ''[Circular]'') \<in> set ps)
   \<and> normalize_val 2 heap_array_twice {} (VRef 0)
       = Inr (NArr [NObj [], NStr ''[Circular]''], {1})
   \<and> (\<exists>ys. NArr [NObj [], NStr ''[Circular]''] = NArr ys \<and> length ys = 2
          \<and> ys ! 1 = NStr ''[Circular]'')
   \<and> (\<exists>d r. normalize_val d heap_object_array_cycle {} (VRef 0) = r \<and> r \<noteq> Inl StackOverflow)"
proof -
  have cell: "heap_cyclic_object 0 = ObjCell [(''self'', VRef 0)]"
    by (simp add: heap_cyclic_object_def)
  have run: "normalize_val 2 heap_cyclic_object {7} (VRef 0)
               = Inr (NObj [(''self'', NStr ''[Circular]'')], {0, 7})"
    by (simp add: numeral_2_eq_2 cell Object_keys_def lookup_def dropped_def assign_def
          own_keys_order_def is_index_def is_digit_def)
  have nested: "normalize_val 3 heap_nested_shared {0} (VRef 2)
                  = Inr (NObj [(''x'', NObj [])], {0, 1, 2})"
    by (auto simp: numeral_3_eq_3 heap_nested_shared_def empty_heap_def Object_keys_def
          lookup_def dropped_def assign_def own_keys_order_def is_index_def is_digit_def)
  note thm1 = marked_plain_objects_become_circular
      [where h = heap_cyclic_object and a = 0 and fs = "[(''self'', VRef 0)]"
         and seen = "{0}" and d = 0]
  note thm2 = marked_plain_objects_become_circular
      [where h = heap_cyclic_object and seen = "{7}" and d = 2 and v = "VRef 0"
         and n = "NObj [(''self'', NStr ''[Circular]'')]" and seen' = "{0, 7}"]
  note thm3 = marked_plain_objects_become_circular
      [where h = heap_nested_shared and seen = "{0}" and d = 3 and v = "VRef 2"
         and n = "NObj [(''x'', NObj [])]" and seen' = "{0, 1, 2}" and b = 1
         and later = "{0, 1, 2}" and d' = 0]
  note thm4 = marked_plain_objects_become_circular
      [where h = heap_object_array_cycle and seen = "{}" and v = "VRef 0"]
  have root: "heap_nested_shared 0 = ObjCell [(''a'', VRef 2), (''b'', VRef 1)]"
    by (simp add: heap_nested_shared_def)
  have whole: "normalize_val 4 heap_nested_shared {} (VRef 0)
       = Inr (NObj [(''a'', NObj [(''x'', NObj [])]), (''b'', NStr ''[Circular]'')], {0, 1, 2})"
    by (auto simp: eval_nat_numeral heap_nested_shared_def empty_heap_def Object_keys_def
          lookup_def dropped_def assign_def own_keys_order_def is_index_def is_digit_def)
  have keys: "''a'' \<in> set (Object_keys [(''a'', VRef 2), (''b'', VRef 1)])"
    "\<not> dropped (lookup [(''a'', VRef 2), (''b'', VRef 1)] ''a'')"
    "lookup [(''a'', VRef 2), (''b'', VRef 1)] ''a'' = VRef 2"
    "''a'' < ''b''" "lookup [(''a'', VRef 2), (''b'', VRef 1)] ''b'' = VRef 1"
    "''b'' \<noteq> ''__proto__''"
    by (simp_all add: Object_keys_def lookup_def dropped_def)
  have below: "reaches heap_nested_shared (insert 0 {})
                 (lookup [(''a'', VRef 2), (''b'', VRef 1)] ''a'') 1"
    unfolding keys(3) by (rule nested_shared_reaches)
  note thm5 = marked_plain_objects_become_circular
      [where h = heap_nested_shared and a = 0 and fs = "[(''a'', VRef 2), (''b'', VRef 1)]"
         and seen = "{}" and d = 3 and k = "''a''" and k' = "''b''" and b = 1
         and n = "NObj [(''a'', NObj [(''x'', NObj [])]), (''b'', NStr ''[Circular]'')]"
         and seen' = "{0, 1, 2}"]
  have five: "\<exists>ps. NObj [(''a'', NObj [(''x'', NObj [])]), (''b'', NStr ''[Circular]'')] = NObj ps
          \<and> distinct (map fst ps) \<and> (''b'', NStr ''[Circular]'') \<in> set ps"
    using thm5 root whole keys(1,2,4,5,6) below by (simp add: eval_nat_numeral)
  have arr: "heap_array_twice 0 = ArrCell [VRef 1, VRef 1]"
    and elem: "heap_array_twice 1 = ObjCell []"
    by (simp_all add: heap_array_twice_def empty_heap_def)
  have twice: "normalize_val 2 heap_array_twice {} (VRef 0)
       = Inr (NArr [NObj [], NStr ''[Circular]''], {1})"
    by (auto simp: eval_nat_numeral heap_array_twice_def empty_heap_def Object_keys_def
          own_keys_order_def)
  have first: "reaches heap_array_twice {} ([VRef 1, VRef 1] ! 0) 1"
    using elem by (auto intro: reaches_met meets_object)
  note thm6 = marked_plain_objects_become_circular
      [where h = heap_array_twice and a = 0 and xs = "[VRef 1, VRef 1]" and seen = "{}"
         and d = 1 and i = 0 and j = 1 and b = 1
         and n = "NArr [NObj [], NStr ''[Circular]'']" and seen' = "{1}"]
  have six: "\<exists>ys. NArr [NObj [], NStr ''[Circular]''] = NArr ys \<and> length ys = 2
          \<and> ys ! 1 = NStr ''[Circular]''"
    using thm6 arr twice first by (simp add: eval_nat_numeral)
  have one: "normalize_val (Suc 0) heap_cyclic_object {0} (VRef 0)
               = Inr (NStr ''[Circular]'', {0})"
    using thm1 cell by simp
  have two: "{0, 7} = {7} \<union> {b. reaches heap_cyclic_object {7} (VRef 0) b}"
    using thm2 run by blast
  have three: "normalize_val (Suc 0) heap_nested_shared {0, 1, 2} (VRef 1)
                 = Inr (NStr ''[Circular]'', {0, 1, 2})"
    using thm3 nested nested_shared_reaches by blast
  have "settles heap_object_array_cycle {} (VRef 0)"
    using thm4 finite_objects_cycle acyclic_arrays_cycle by blast
  then have four: "\<exists>d r. normalize_val d heap_object_array_cycle {} (VRef 0) = r
                      \<and> r \<noteq> Inl StackOverflow"
    unfolding settles_def by blast
  from cell one run two nested nested_shared_reaches three whole five twice six four
  show ?thesis
    by (intro conjI)
qed

end
